theory Spec2Isabelle
  imports Main
begin

section \<open>Python values, errors and strings\<close>

text \<open>
  The program is \<^verbatim>\<open>src/python3/cloudwatch/src/lambda_function.py\<close>. Its data are the
  values a JSON document decodes to, held in dictionaries keyed by strings.

  A Python \<^verbatim>\<open>str\<close> is modelled as a \<^typ>\<open>string\<close>: a list of characters, each
  character a code point in the range 0..255. Text with code points above 255 is outside
  the model. Floating-point numbers are not modelled either.
  A \<^verbatim>\<open>dict\<close> stored inside a value is an association list with one entry per key; the
  record a function works on is a map from keys to values.
\<close>

datatype pyval =
    PStr string
  | PInt int
  | PBool bool
  | PNone
  | PList "pyval list"
  | PDict "(string \<times> pyval) list"

text \<open>
  The exception classes that can arise. \<open>BinasciiError\<close>, \<open>JSONDecodeError\<close> and
  \<open>UnicodeDecodeError\<close> are subclasses of \<open>ValueError\<close> in Python; \<open>BadGzipFile\<close> is
  a subclass of \<open>OSError\<close>; \<open>EOFError\<close> and \<open>ZlibError\<close> stand on their own.
\<close>

datatype error =
    KeyError | ValueError | TypeError | AttributeError | IndexError
  | BinasciiError | JSONDecodeError | UnicodeDecodeError
  | BadGzipFile | OSError | EOFError | ZlibError | RecursionError

text \<open>\<^verbatim>\<open>except ValueError\<close> catches the class and its subclasses.\<close>

fun is_ValueError :: "error \<Rightarrow> bool" where
  "is_ValueError ValueError = True"
| "is_ValueError BinasciiError = True"
| "is_ValueError JSONDecodeError = True"
| "is_ValueError UnicodeDecodeError = True"
| "is_ValueError _ = False"

type_synonym log = "string \<rightharpoonup> pyval"

text \<open>Sequencing of steps that may raise: the first error ends the computation.\<close>

fun bind :: "error + 'a \<Rightarrow> ('a \<Rightarrow> error + 'b) \<Rightarrow> error + 'b" where
  "bind (Inl e) f = Inl e"
| "bind (Inr x) f = f x"

text \<open>\<^verbatim>\<open>d[k]\<close> on a record: \<open>KeyError\<close> when the key is absent.\<close>

definition getitem :: "log \<Rightarrow> string \<Rightarrow> error + pyval" where
  "getitem d k = (case d k of None \<Rightarrow> Inl KeyError | Some v \<Rightarrow> Inr v)"

text \<open>\<^verbatim>\<open>del d[k]\<close>: \<open>KeyError\<close> when the key is absent.\<close>

definition delitem :: "log \<Rightarrow> string \<Rightarrow> error + log" where
  "delitem d k = (case d k of None \<Rightarrow> Inl KeyError | Some v \<Rightarrow> Inr (d(k := None)))"

subsection \<open>Characters\<close>

definition code :: "char \<Rightarrow> nat" where
  "code c = of_char c"

definition in_range :: "char \<Rightarrow> char \<Rightarrow> char \<Rightarrow> bool" where
  "in_range a b c = (code a \<le> code c \<and> code c \<le> code b)"

text \<open>
  \<^verbatim>\<open>str.lower\<close> and \<^verbatim>\<open>str.upper\<close> on one code point below 256: the ASCII letters and
  the Latin-1 letters that have their partner below 256.
\<close>

definition lower_char :: "char \<Rightarrow> char" where
  "lower_char c =
     (let n = code c in
      if (65 \<le> n \<and> n \<le> 90) \<or> (192 \<le> n \<and> n \<le> 222 \<and> n \<noteq> 215)
      then char_of (n + 32) else c)"

definition upper_char :: "char \<Rightarrow> char" where
  "upper_char c =
     (let n = code c in
      if (97 \<le> n \<and> n \<le> 122) \<or> (224 \<le> n \<and> n \<le> 254 \<and> n \<noteq> 247)
      then char_of (n - 32) else c)"

definition str_lower :: "string \<Rightarrow> string" where
  "str_lower s = map lower_char s"

subsection \<open>The string operations the program uses\<close>

text \<open>\<^verbatim>\<open>s.index(c)\<close> for a one-character \<open>c\<close>: the first position, \<open>ValueError\<close> if none.\<close>

fun find_char :: "char \<Rightarrow> string \<Rightarrow> nat option" where
  "find_char c [] = None"
| "find_char c (x # xs) =
     (if x = c then Some 0 else map_option Suc (find_char c xs))"

definition str_index :: "string \<Rightarrow> char \<Rightarrow> error + nat" where
  "str_index s c = (case find_char c s of None \<Rightarrow> Inl ValueError | Some i \<Rightarrow> Inr i)"

text \<open>Slices \<^verbatim>\<open>s[a:b]\<close> and \<^verbatim>\<open>s[a:]\<close> with indices that are not negative.\<close>

definition slice :: "string \<Rightarrow> nat \<Rightarrow> nat \<Rightarrow> string" where
  "slice s a b = take (b - a) (drop a s)"

definition slice_from :: "string \<Rightarrow> nat \<Rightarrow> string" where
  "slice_from s a = drop a s"

text \<open>\<^verbatim>\<open>s.split(c)\<close> for a one-character separator: always at least one part.\<close>

fun split_on :: "char \<Rightarrow> string \<Rightarrow> string list" where
  "split_on c [] = [[]]"
| "split_on c (x # xs) =
     (if x = c then [] # split_on c xs
      else (case split_on c xs of
              [] \<Rightarrow> [[x]]
            | p # ps \<Rightarrow> (x # p) # ps))"

definition startswith :: "string \<Rightarrow> string \<Rightarrow> bool" where
  "startswith s p = (take (length p) s = p)"

text \<open>\<^verbatim>\<open>p in s\<close> for strings: \<open>p\<close> occurs in \<open>s\<close> as a substring.\<close>

fun str_contains :: "string \<Rightarrow> string \<Rightarrow> bool" where
  "str_contains p [] = (p = [])"
| "str_contains p (x # xs) = (startswith (x # xs) p \<or> str_contains p xs)"

subsection \<open>The builtin \<^verbatim>\<open>str\<close>\<close>

definition digit_char :: "nat \<Rightarrow> char" where
  "digit_char d = char_of (48 + d)"

function str_nat :: "nat \<Rightarrow> string" where
  "str_nat n = (if n < 10 then [digit_char n] else str_nat (n div 10) @ [digit_char (n mod 10)])"
  by pat_completeness auto
termination
  by (relation "measure id") auto

definition str_int :: "int \<Rightarrow> string" where
  "str_int i = (if i < 0 then CHR ''-'' # str_nat (nat (- i)) else str_nat (nat i))"

definition hex_digit :: "nat \<Rightarrow> char" where
  "hex_digit d = (if d < 10 then char_of (48 + d) else char_of (87 + d))"

text \<open>
  \<^verbatim>\<open>repr\<close> of a string: single quotes unless the text has a single quote and no double
  quote; backslash, the quote in use, tab, newline and carriage return are escaped, and
  a code point that is not printable is written \<^verbatim>\<open>\xNN\<close>.
\<close>

definition printable :: "char \<Rightarrow> bool" where
  "printable c = (let n = code c in 32 \<le> n \<and> n \<noteq> 127 \<and> \<not> (128 \<le> n \<and> n \<le> 160) \<and> n \<noteq> 173)"

definition repr_char :: "char \<Rightarrow> char \<Rightarrow> string" where
  "repr_char q c =
     (if c = CHR 0x5C then [CHR 0x5C, CHR 0x5C]
      else if c = q then [CHR 0x5C, q]
      else if c = CHR 0x09 then [CHR 0x5C, CHR ''t'']
      else if c = CHR 0x0A then [CHR 0x5C, CHR ''n'']
      else if c = CHR 0x0D then [CHR 0x5C, CHR ''r'']
      else if printable c then [c]
      else [CHR 0x5C, CHR ''x'', hex_digit (code c div 16), hex_digit (code c mod 16)])"

definition repr_str :: "string \<Rightarrow> string" where
  "repr_str s =
     (let q = (if CHR 0x27 \<in> set s \<and> CHR 0x22 \<notin> set s then CHR 0x22 else CHR 0x27)
      in [q] @ concat (map (repr_char q) s) @ [q])"

fun join :: "string \<Rightarrow> string list \<Rightarrow> string" where
  "join sep [] = []"
| "join sep [x] = x"
| "join sep (x # y # ys) = x @ sep @ join sep (y # ys)"

fun repr :: "pyval \<Rightarrow> string" where
  "repr (PStr s) = repr_str s"
| "repr (PInt i) = str_int i"
| "repr (PBool b) = (if b then ''True'' else ''False'')"
| "repr PNone = ''None''"
| "repr (PList xs) = ''['' @ join '', '' (map repr xs) @ '']''"
| "repr (PDict kvs) =
     ''{'' @ join '', '' (map (\<lambda>(k, v). repr_str k @ '': '' @ repr v) kvs) @ ''}''"

text \<open>\<^verbatim>\<open>str(v)\<close>: a string is itself, everything else is its \<^verbatim>\<open>repr\<close>.\<close>

fun py_str :: "pyval \<Rightarrow> string" where
  "py_str (PStr s) = s"
| "py_str v = repr v"

section \<open>The runtime message parser\<close>

definition LOG_LEVELS :: "string list" where
  "LOG_LEVELS = [''alert'', ''trace'', ''debug'', ''notice'', ''info'', ''warn'',
                 ''warning'', ''error'', ''err'', ''critical'', ''crit'', ''fatal'',
                 ''severe'', ''emerg'', ''emergency'']"

definition PYTHON_EVENT_SIZE :: nat where "PYTHON_EVENT_SIZE = 3"
definition NODEJS_EVENT_SIZE :: nat where "NODEJS_EVENT_SIZE = 4"
definition LAMBDA_LOG_GROUP :: string where "LAMBDA_LOG_GROUP = ''/aws/lambda/''"

text \<open>
  The \<^verbatim>\<open>try\<close> block of \<^verbatim>\<open>_extract_lambda_log_message\<close>: the record after it and
  \<^verbatim>\<open>start_split\<close>. Either \<^verbatim>\<open>index\<close> raising \<open>ValueError\<close> is caught and gives 0.
\<close>

definition level_step :: "log \<Rightarrow> string \<Rightarrow> log \<times> nat" where
  "level_step lg str_message =
     (case str_index str_message CHR ''['' of
        Inl _ \<Rightarrow> (lg, 0)
      | Inr start_level \<Rightarrow>
          (case str_index str_message CHR '']'' of
             Inl _ \<Rightarrow> (lg, 0)
           | Inr end_level \<Rightarrow>
               (let log_level = slice str_message (start_level + 1) end_level in
                if str_lower log_level \<in> set LOG_LEVELS
                then (lg(''log_level'' \<mapsto> PStr log_level), end_level + 2)
                else (lg, 0))))"

definition extract_lambda_log_message :: "log \<Rightarrow> error + log" where
  "extract_lambda_log_message lg =
     bind (getitem lg ''message'') (\<lambda>m.
       let str_message = py_str m;
           (log1, start_split) = level_step lg str_message;
           message_parts = split_on CHR 0x09 (slice_from str_message start_split);
           size = length message_parts;
           log2 = (if size = PYTHON_EVENT_SIZE \<or> size = NODEJS_EVENT_SIZE
                   then log1(''@timestamp'' \<mapsto> PStr (message_parts ! 0),
                             ''requestID'' \<mapsto> PStr (message_parts ! 1),
                             ''message'' \<mapsto> PStr (message_parts ! (size - 1)))
                   else log1);
           log3 = (if size = NODEJS_EVENT_SIZE
                   then log2(''log_level'' \<mapsto> PStr (message_parts ! 2))
                   else log2)
       in Inr log3)"

section \<open>The IP pattern\<close>

text \<open>
  \<^verbatim>\<open>IP_PATTERN\<close> is a regular expression compiled with \<^verbatim>\<open>re.IGNORECASE\<close>. It is
  embedded as a term of a small regular-expression type, with a backtracking matcher
  that lists the possible end positions of a match in the order Python's engine tries
  them: the earlier alternative first, the longer repetition first.
\<close>

datatype cpat = Ch char | Rng char char | WordC

text \<open>\<^verbatim>\<open>\w\<close> on code points below 256: letters, digits, the underscore.\<close>

definition word_char :: "char \<Rightarrow> bool" where
  "word_char c =
     (let n = code c in
      (48 \<le> n \<and> n \<le> 57) \<or> (65 \<le> n \<and> n \<le> 90) \<or> n = 95 \<or> (97 \<le> n \<and> n \<le> 122)
      \<or> n = 170 \<or> n = 178 \<or> n = 179 \<or> n = 181 \<or> n = 185 \<or> n = 186
      \<or> (188 \<le> n \<and> n \<le> 190) \<or> (192 \<le> n \<and> n \<le> 214) \<or> (216 \<le> n \<and> n \<le> 246)
      \<or> 248 \<le> n)"

text \<open>One item of a character set against one character, ignoring case.\<close>

fun cmatch :: "cpat \<Rightarrow> char \<Rightarrow> bool" where
  "cmatch (Ch a) c = (lower_char c = lower_char a)"
| "cmatch (Rng a b) c =
     (in_range a b c \<or> in_range a b (lower_char c) \<or> in_range a b (upper_char c))"
| "cmatch WordC c = word_char c"

definition in_set :: "cpat list \<Rightarrow> char \<Rightarrow> bool" where
  "in_set cs c = list_ex (\<lambda>p. cmatch p c) cs"

datatype regex =
    Sym "cpat list"
  | Seq regex regex
  | Alt regex regex
  | Rep regex nat "nat option"
  | NotBehind "cpat list"
  | NotAhead "cpat list"

text \<open>
  Greedy repetition \<^verbatim>\<open>{lo,hi}\<close> of a matcher \<open>f\<close> from position \<open>i\<close>: one more
  round is tried before stopping.
\<close>

fun rep :: "(nat \<Rightarrow> nat list) \<Rightarrow> nat \<Rightarrow> nat \<Rightarrow> nat \<Rightarrow> nat list" where
  "rep f lo 0 i = (if lo = 0 then [i] else [])"
| "rep f lo (Suc hi) i =
     concat (map (rep f (lo - 1) hi) (f i)) @ (if lo = 0 then [i] else [])"

text \<open>
  The end positions of the matches of a pattern in \<open>s\<close> that start at \<open>i\<close>. An open
  repetition \<^verbatim>\<open>{lo,}\<close> is bounded by the characters that are left: every repeated
  part of \<^verbatim>\<open>IP_PATTERN\<close> consumes at least one character.
\<close>

fun rmatch :: "regex \<Rightarrow> string \<Rightarrow> nat \<Rightarrow> nat list" where
  "rmatch (Sym cs) s i = (if i < length s \<and> in_set cs (s ! i) then [Suc i] else [])"
| "rmatch (Seq a b) s i = concat (map (rmatch b s) (rmatch a s i))"
| "rmatch (Alt a b) s i = rmatch a s i @ rmatch b s i"
| "rmatch (Rep a lo hi) s i =
     rep (\<lambda>j. rmatch a s j) lo (case hi of Some h \<Rightarrow> h | None \<Rightarrow> length s - i) i"
| "rmatch (NotBehind cs) s i = (if 0 < i \<and> in_set cs (s ! (i - 1)) then [] else [i])"
| "rmatch (NotAhead cs) s i = (if i < length s \<and> in_set cs (s ! i) then [] else [i])"

text \<open>\<^verbatim>\<open>pattern.match(s, i)\<close>: the end of the first match found, if any.\<close>

definition match_at :: "regex \<Rightarrow> string \<Rightarrow> nat \<Rightarrow> nat option" where
  "match_at r s i = (case rmatch r s i of [] \<Rightarrow> None | e # _ \<Rightarrow> Some e)"

text \<open>
  \<^verbatim>\<open>pattern.finditer(s)\<close>: the matches from left to right, each search starting where
  the match before ended. \<^verbatim>\<open>IP_PATTERN\<close> never matches the empty string, so the
  step past an empty match is never taken for it.
\<close>

function finditer_from :: "regex \<Rightarrow> string \<Rightarrow> nat \<Rightarrow> (nat \<times> nat) list" where
  "finditer_from r s i =
     (if length s < i then []
      else (case match_at r s i of
              None \<Rightarrow> finditer_from r s (Suc i)
            | Some e \<Rightarrow> (i, e) # finditer_from r s (if i < e then e else Suc i)))"
  by pat_completeness auto
termination
  by (relation "measure (\<lambda>(r, s, i). Suc (length s) - i)") auto

definition finditer :: "regex \<Rightarrow> string \<Rightarrow> (nat \<times> nat) list" where
  "finditer r s = finditer_from r s 0"

subsection \<open>The pattern of the program\<close>

definition lit :: "char \<Rightarrow> regex" where
  "lit c = Sym [Ch c]"

fun seqs :: "regex list \<Rightarrow> regex" where
  "seqs [r] = r"
| "seqs (r # rs) = Seq r (seqs rs)"
| "seqs [] = Rep (Sym []) 0 (Some 0)"

fun alts :: "regex list \<Rightarrow> regex" where
  "alts [r] = r"
| "alts (r # rs) = Alt r (alts rs)"
| "alts [] = Sym []"

text \<open>\<^verbatim>\<open>[0-9]\<close>, \<^verbatim>\<open>[0-9a-fA-F]\<close>, \<^verbatim>\<open>[0-9a-fA-F]{1,4}\<close>,
  \<^verbatim>\<open>[0-9a-fA-F]{1,4}:\<close> and \<^verbatim>\<open>:[0-9a-fA-F]{1,4}\<close>.\<close>

definition dig :: regex where
  "dig = Sym [Rng CHR ''0'' CHR ''9'']"

definition hexd :: regex where
  "hexd = Sym [Rng CHR ''0'' CHR ''9'', Rng CHR ''a'' CHR ''f'', Rng CHR ''A'' CHR ''F'']"

definition h4 :: regex where
  "h4 = Rep hexd 1 (Some 4)"

definition h4c :: regex where
  "h4c = Seq h4 (lit CHR '':'')"

definition ch4 :: regex where
  "ch4 = Seq (lit CHR '':'') h4"

text \<open>\<^verbatim>\<open>25[0-5]|(?:2[0-4]|1{0,1}[0-9]){0,1}[0-9]\<close>\<close>

definition octet :: regex where
  "octet =
     Alt (seqs [lit CHR ''2'', lit CHR ''5'', Sym [Rng CHR ''0'' CHR ''5'']])
         (Seq (Rep (Alt (Seq (lit CHR ''2'') (Sym [Rng CHR ''0'' CHR ''4'']))
                        (Seq (Rep (lit CHR ''1'') 0 (Some 1)) dig))
                   0 (Some 1))
              dig)"

text \<open>The alternatives between the two lookarounds, in the order of the source.\<close>

definition IP_ALTERNATIVES :: "regex list" where
  "IP_ALTERNATIVES =
     [ Seq (Rep (Seq (Rep dig 1 (Some 3)) (lit CHR ''.'')) 3 (Some 3)) (Rep dig 1 (Some 3)),
       Seq (Rep h4c 7 (Some 7)) h4,
       Seq (Rep h4c 1 (Some 7)) (lit CHR '':''),
       Seq (Rep h4c 1 (Some 6)) ch4,
       Seq (Rep h4c 1 (Some 5)) (Rep ch4 1 (Some 2)),
       Seq (Rep h4c 1 (Some 4)) (Rep ch4 1 (Some 3)),
       Seq (Rep h4c 1 (Some 3)) (Rep ch4 1 (Some 4)),
       Seq (Rep h4c 1 (Some 2)) (Rep ch4 1 (Some 5)),
       Seq h4c (Rep ch4 1 (Some 6)),
       Seq (lit CHR '':'') (Alt (Rep ch4 1 (Some 7)) (lit CHR '':'')),
       seqs [lit CHR ''f'', lit CHR ''e'', lit CHR ''8'', lit CHR ''0'', lit CHR '':'',
             Rep (Seq (lit CHR '':'') (Rep hexd 0 (Some 4))) 0 (Some 4),
             lit CHR ''%'',
             Rep (Sym [Rng CHR ''0'' CHR ''9'', Rng CHR ''a'' CHR ''z'', Rng CHR ''A'' CHR ''Z''])
                 1 None],
       seqs [lit CHR '':'', lit CHR '':'',
             Rep (seqs [lit CHR ''f'', lit CHR ''f'', lit CHR ''f'', lit CHR ''f'',
                        Rep (Seq (lit CHR '':'') (Rep (lit CHR ''0'') 1 (Some 4))) 0 (Some 1),
                        lit CHR '':''])
                 0 (Some 1),
             Rep (Seq octet (lit CHR ''.'')) 3 (Some 3),
             octet],
       seqs [Rep h4c 1 (Some 4), lit CHR '':'',
             Rep (Seq octet (lit CHR ''.'')) 3 (Some 3),
             octet] ]"

definition IP_BODY :: regex where
  "IP_BODY = alts IP_ALTERNATIVES"

text \<open>\<^verbatim>\<open>[:.\w]\<close>, the set of both lookarounds.\<close>

definition BOUNDARY :: "cpat list" where
  "BOUNDARY = [Ch CHR '':'', Ch CHR ''.'', WordC]"

definition IP_PATTERN :: regex where
  "IP_PATTERN = Seq (NotBehind BOUNDARY) (Seq IP_BODY (NotAhead BOUNDARY))"

section \<open>The IP anonymizer\<close>

text \<open>
  The loop of \<^verbatim>\<open>_anonymize_ip_addresses\<close> over the matches, with \<^verbatim>\<open>last_end\<close> and
  \<^verbatim>\<open>new_msg\<close> as its state. The builtin \<^verbatim>\<open>hash\<close> is the parameter \<open>h\<close>: a function
  of the text, fixed for the life of the process.
\<close>

fun anonymize_loop ::
  "(string \<Rightarrow> int) \<Rightarrow> string \<Rightarrow> (nat \<times> nat) list \<Rightarrow> nat \<Rightarrow> string \<Rightarrow> string" where
  "anonymize_loop h msg [] last_end new_msg = new_msg @ slice_from msg last_end"
| "anonymize_loop h msg ((st, en) # ms) last_end new_msg =
     anonymize_loop h msg ms en
       ((new_msg @ slice msg last_end st) @ ''IP('' @ str_int (h (slice msg st en)) @ '')'')"

definition anonymize :: "(string \<Rightarrow> int) \<Rightarrow> string \<Rightarrow> string" where
  "anonymize h msg = anonymize_loop h msg (finditer IP_PATTERN msg) 0 []"

definition anonymize_ip_addresses :: "(string \<Rightarrow> int) \<Rightarrow> log \<Rightarrow> error + log" where
  "anonymize_ip_addresses h lg =
     bind (getitem lg ''message'') (\<lambda>m.
       Inr (lg(''message'' \<mapsto> PStr (anonymize h (py_str m)))))"

section \<open>What the program takes from its platform\<close>

text \<open>
  The process environment and the library functions the program calls are parameters
  of the model: \<^verbatim>\<open>os.environ\<close>, \<^verbatim>\<open>base64.b64decode\<close>, reading a
  \<^verbatim>\<open>gzip.GzipFile\<close>, \<^verbatim>\<open>json.loads\<close> on bytes and on a string, and the builtin
  \<^verbatim>\<open>hash\<close>. A library function returns its value or the error it raises.
\<close>

record platform =
  environ :: "string \<rightharpoonup> string"
  b64decode :: "pyval \<Rightarrow> error + string"
  gzip_read :: "string \<Rightarrow> error + string"
  loads_bytes :: "string \<Rightarrow> error + pyval"
  loads_str :: "string \<Rightarrow> error + pyval"
  py_hash :: "string \<Rightarrow> int"

text \<open>\<^verbatim>\<open>v[k]\<close> with a string key on a decoded value: only a dict can be indexed so.\<close>

fun subscript :: "pyval \<Rightarrow> string \<Rightarrow> error + pyval" where
  "subscript (PDict kvs) k = (case map_of kvs k of None \<Rightarrow> Inl KeyError | Some v \<Rightarrow> Inr v)"
| "subscript _ k = Inl TypeError"

text \<open>\<^verbatim>\<open>p in v\<close> for a string \<open>p\<close>: substring of a string, element of a list, key of a dict.\<close>

fun py_in :: "string \<Rightarrow> pyval \<Rightarrow> error + bool" where
  "py_in p (PStr s) = Inr (str_contains p s)"
| "py_in p (PList xs) = Inr (PStr p \<in> set xs)"
| "py_in p (PDict kvs) = Inr (p \<in> set (map fst kvs))"
| "py_in p _ = Inl TypeError"

text \<open>
  The items a \<^verbatim>\<open>for\<close> loop visits; \<^verbatim>\<open>len\<close> raises \<open>TypeError\<close> on the same values
  as iteration does.
\<close>

fun py_iter :: "pyval \<Rightarrow> error + pyval list" where
  "py_iter (PList xs) = Inr xs"
| "py_iter (PStr s) = Inr (map (\<lambda>c. PStr [c]) s)"
| "py_iter (PDict kvs) = Inr (map (\<lambda>(k, v). PStr k) kvs)"
| "py_iter _ = Inl TypeError"

section \<open>The batch decoder\<close>

definition extract_aws_logs_data :: "platform \<Rightarrow> pyval \<Rightarrow> error + pyval" where
  "extract_aws_logs_data pf event =
     bind (subscript event ''awslogs'') (\<lambda>awslogs.
     bind (subscript awslogs ''data'') (\<lambda>event_str.
       (case bind (b64decode pf event_str) (\<lambda>logs_data_decoded.
             bind (gzip_read pf logs_data_decoded) (\<lambda>logs_data_unzipped.
               loads_bytes pf logs_data_unzipped)) of
          Inl e \<Rightarrow> if is_ValueError e then Inl ValueError else Inl e
        | Inr logs_data_dict \<Rightarrow> Inr logs_data_dict)))"

section \<open>The steps on one record\<close>

definition add_timestamp :: "log \<Rightarrow> error + log" where
  "add_timestamp lg =
     (if lg ''@timestamp'' = None
      then bind (getitem lg ''timestamp'') (\<lambda>t.
             delitem (lg(''@timestamp'' \<mapsto> PStr (py_str t))) ''timestamp'')
      else Inr lg)"

text \<open>\<^verbatim>\<open>json.loads(v)\<close>: a value that is not text raises \<open>TypeError\<close>.\<close>

fun json_loads :: "platform \<Rightarrow> pyval \<Rightarrow> error + pyval" where
  "json_loads pf (PStr s) = loads_str pf s"
| "json_loads pf _ = Inl TypeError"

text \<open>\<^verbatim>\<open>json_object.items()\<close>: only a dict has the method.\<close>

fun items :: "pyval \<Rightarrow> error + (string \<times> pyval) list" where
  "items (PDict kvs) = Inr kvs"
| "items _ = Inl AttributeError"

text \<open>
  \<^verbatim>\<open>_parse_to_json\<close>: the body of the \<^verbatim>\<open>try\<close>, then the handler, which swallows
  \<open>KeyError\<close> and \<open>ValueError\<close> and lets every other error through.
\<close>

definition parse_to_json_body :: "platform \<Rightarrow> log \<Rightarrow> error + log" where
  "parse_to_json_body pf lg =
     (case environ pf ''FORMAT'' of
        None \<Rightarrow> Inl KeyError
      | Some fmt \<Rightarrow>
          if str_lower fmt = ''json''
          then bind (getitem lg ''message'') (\<lambda>m.
               bind (json_loads pf m) (\<lambda>json_object.
               bind (items json_object) (\<lambda>kvs.
                 Inr (fold (\<lambda>(key, val) l. l(key \<mapsto> val)) kvs lg))))
          else Inr lg)"

definition parse_to_json :: "platform \<Rightarrow> log \<Rightarrow> error + log" where
  "parse_to_json pf lg =
     (case parse_to_json_body pf lg of
        Inl e \<Rightarrow> if e = KeyError \<or> is_ValueError e then Inr lg else Inl e
      | Inr lg' \<Rightarrow> Inr lg')"

definition is_valid_log :: "log \<Rightarrow> error + bool" where
  "is_valid_log lg =
     bind (getitem lg ''message'') (\<lambda>message.
       (case message of
          PStr m \<Rightarrow>
            (let is_info_log = (startswith m ''START'' \<or> startswith m ''END''
                                \<or> startswith m ''REPORT'')
             in Inr (\<not> is_info_log))
        | _ \<Rightarrow> Inl AttributeError))"

text \<open>
  \<^verbatim>\<open>_parse_cloudwatch_log\<close> from \<^verbatim>\<open>del log['id']\<close> on, and the whole function. The
  result is what the function returns together with the record as it has left it.
\<close>

definition finish_log :: "platform \<Rightarrow> log \<Rightarrow> log \<Rightarrow> error + bool \<times> log" where
  "finish_log pf lg additional_data =
     bind (delitem lg ''id'') (\<lambda>lg1.
     bind (parse_to_json pf (lg1 ++ additional_data)) (\<lambda>lg2.
       Inr (True, lg2)))"

definition parse_cloudwatch_log :: "platform \<Rightarrow> log \<Rightarrow> log \<Rightarrow> error + bool \<times> log" where
  "parse_cloudwatch_log pf lg additional_data =
     bind (add_timestamp lg) (\<lambda>lg1.
     bind (anonymize_ip_addresses (py_hash pf) lg1) (\<lambda>lg2.
     bind (getitem additional_data ''service'') (\<lambda>service.
     bind (py_in LAMBDA_LOG_GROUP service) (\<lambda>is_lambda.
       if is_lambda
       then bind (is_valid_log lg2) (\<lambda>valid.
              if valid
              then bind (extract_lambda_log_message lg2) (\<lambda>lg3.
                     finish_log pf lg3 additional_data)
              else Inr (False, lg2))
       else finish_log pf lg2 additional_data))))"

section \<open>The metadata of a batch\<close>

definition KEY_INDEX :: nat where
  "KEY_INDEX = 0"

definition VALUE_INDEX :: nat where
  "VALUE_INDEX = 1"

text \<open>\<^verbatim>\<open>xs[i]\<close> on a list: \<open>IndexError\<close> past the end.\<close>

definition list_get :: "'a list \<Rightarrow> nat \<Rightarrow> error + 'a" where
  "list_get xs i = (if i < length xs then Inr (xs ! i) else Inl IndexError)"

fun enrich_loop :: "string list \<Rightarrow> log \<Rightarrow> error + log" where
  "enrich_loop [] additional_data = Inr additional_data"
| "enrich_loop (property_to_enrich # rest) additional_data =
     (let property_key_value = split_on CHR ''='' property_to_enrich in
      bind (list_get property_key_value KEY_INDEX) (\<lambda>k.
      bind (list_get property_key_value VALUE_INDEX) (\<lambda>v.
        enrich_loop rest (additional_data(k \<mapsto> PStr v)))))"

definition get_additional_logs_data :: "platform \<Rightarrow> pyval \<Rightarrow> error + log" where
  "get_additional_logs_data pf aws_logs_data =
     bind (subscript aws_logs_data ''logGroup'') (\<lambda>log_group.
     bind (subscript aws_logs_data ''logStream'') (\<lambda>log_stream.
     bind (let additional_data = [''service'' \<mapsto> log_group, ''logger_name'' \<mapsto> log_stream]
           in (case environ pf ''ENRICH'' of
                 None \<Rightarrow> Inr additional_data
               | Some enrich \<Rightarrow>
                   if enrich \<noteq> []
                   then enrich_loop (split_on CHR '';'' enrich) additional_data
                   else Inr additional_data))
       (\<lambda>additional_data.
          Inr (additional_data(''type'' \<mapsto>
                 PStr (case environ pf ''TYPE'' of
                         Some t \<Rightarrow> t
                       | None \<Rightarrow> ''logzio_cloudwatch_lambda''))))))"

section \<open>The handler and the sink\<close>

text \<open>
  The shipper is outside the program; the model records the calls the handler makes on
  it, in order. The handler ends normally (\<open>None\<close>) or with the error that aborted it.
\<close>

datatype sink_call = Add log | Flush

fun send_logs ::
  "platform \<Rightarrow> log \<Rightarrow> pyval list \<Rightarrow> sink_call list \<Rightarrow> error option \<times> sink_call list" where
  "send_logs pf additional_data [] calls = (None, calls)"
| "send_logs pf additional_data (ev # evs) calls =
     (case ev of
        PDict kvs \<Rightarrow>
          (case parse_cloudwatch_log pf (map_of kvs) additional_data of
             Inl e \<Rightarrow> (Some e, calls)
           | Inr (keep, lg) \<Rightarrow>
               send_logs pf additional_data evs (if keep then calls @ [Add lg] else calls))
      | _ \<Rightarrow> (Some TypeError, calls))"

definition lambda_handler :: "platform \<Rightarrow> pyval \<Rightarrow> error option \<times> sink_call list" where
  "lambda_handler pf event =
     (case extract_aws_logs_data pf event of
        Inl e \<Rightarrow> (Some e, [])
      | Inr aws_logs_data \<Rightarrow>
          (case get_additional_logs_data pf aws_logs_data of
             Inl e \<Rightarrow> (Some e, [])
           | Inr additional_data \<Rightarrow>
               (case bind (subscript aws_logs_data ''logEvents'') py_iter of
                  Inl e \<Rightarrow> (Some e, [])
                | Inr evs \<Rightarrow>
                    (case send_logs pf additional_data evs [] of
                       (Some e, calls) \<Rightarrow> (Some e, calls)
                     | (None, calls) \<Rightarrow> (None, calls @ [Flush])))))"

section \<open>The claims in the words of the specification\<close>

subsection \<open>Runtime message parser\<close>

definition TAB :: char where
  "TAB = CHR 0x09"

text \<open>
  The level token of a message, as the specification describes it: the text between
  the first \<^verbatim>\<open>[\<close> and the first \<^verbatim>\<open>]\<close>, when both occur and the text, in lower case,
  is one of the known levels.
\<close>

definition spec_level :: "string \<Rightarrow> string option" where
  "spec_level s =
     (if CHR ''['' \<in> set s \<and> CHR '']'' \<in> set s
      then (let i = length (takeWhile (\<lambda>c. c \<noteq> CHR ''['') s);
                j = length (takeWhile (\<lambda>c. c \<noteq> CHR '']'') s);
                tok = take (j - (i + 1)) (drop (i + 1) s)
            in if str_lower tok \<in> set LOG_LEVELS then Some tok else None)
      else None)"

text \<open>
  The remainder: the text after the closing bracket of a recognized level token and one
  more character, or the whole message when no level token is recognized.
\<close>

definition spec_remainder :: "string \<Rightarrow> string" where
  "spec_remainder s =
     (case spec_level s of
        None \<Rightarrow> s
      | Some tok \<Rightarrow> drop (length (takeWhile (\<lambda>c. c \<noteq> CHR '']'') s) + 2) s)"

definition example_message :: string where
  "example_message =
     ''[ERROR] 2024-01-01T00:00:00Z'' @ [CHR 0x09] @ ''req-123'' @ [CHR 0x09] @ ''boom''"

subsection \<open>Timestamp step\<close>

text \<open>A record that arrives with both keys.\<close>

definition both_timestamps :: log where
  "both_timestamps =
     [''@timestamp'' \<mapsto> PStr ''2024-01-01T00:00:00Z'', ''timestamp'' \<mapsto> PInt 1704067200000]"

subsection \<open>Examples\<close>

text \<open>
  A decoded batch from a log group of the managed function runtime: a lifecycle record
  and a record of the function's own, and the event that carries it.
\<close>

definition example_doc :: pyval where
  "example_doc =
     PDict [(''logGroup'', PStr ''/aws/lambda/my-function''),
            (''logStream'', PStr ''2024/01/01/stream''),
            (''logEvents'',
               PList [PDict [(''id'', PStr ''1''), (''timestamp'', PInt 1704067200000),
                             (''message'', PStr ''START RequestId: req-123'')],
                      PDict [(''id'', PStr ''2''), (''timestamp'', PInt 1704067200001),
                             (''message'', PStr ''hello'')]])]"

definition example_event :: pyval where
  "example_event = PDict [(''awslogs'', PDict [(''data'', PStr ''H4sIAAAAAAAA'')])]"

text \<open>
  A platform for the examples: the environment \<open>env\<close>, a payload that decodes to
  \<open>doc\<close>, no message that is JSON text, and a hash.
\<close>

definition platform_for :: "(string \<rightharpoonup> string) \<Rightarrow> pyval \<Rightarrow> platform" where
  "platform_for env doc =
     \<lparr> environ = env,
       b64decode = (\<lambda>v. case v of PStr s \<Rightarrow> Inr s | _ \<Rightarrow> Inl TypeError),
       gzip_read = (\<lambda>d. Inr d),
       loads_bytes = (\<lambda>u. Inr doc),
       loads_str = (\<lambda>s. Inl JSONDecodeError),
       py_hash = (\<lambda>s. int (length s)) \<rparr>"

subsection \<open>Metadata of a batch\<close>

text \<open>
  The pair a piece of the enrichment string gives: the text before its first \<^verbatim>\<open>=\<close>,
  and the text between its first and its second \<^verbatim>\<open>=\<close> (to the end when there is no
  second).
\<close>

definition spec_pair :: "string \<Rightarrow> string \<times> pyval" where
  "spec_pair p =
     (takeWhile (\<lambda>c. c \<noteq> CHR ''='') p,
      PStr (takeWhile (\<lambda>c. c \<noteq> CHR ''='') (tl (dropWhile (\<lambda>c. c \<noteq> CHR ''='') p))))"

text \<open>The configuration asks for JSON handling.\<close>

definition json_enabled :: "platform \<Rightarrow> bool" where
  "json_enabled pf =
     (case environ pf ''FORMAT'' of None \<Rightarrow> False | Some fmt \<Rightarrow> str_lower fmt = ''json'')"

definition enrich_env :: "string \<rightharpoonup> string" where
  "enrich_env = [''ENRICH'' \<mapsto> ''env=prod;team=core'']"

definition enrich_env_eq :: "string \<rightharpoonup> string" where
  "enrich_env_eq = [''ENRICH'' \<mapsto> ''k=a=b'']"

subsection \<open>JSON flattener and batch decoder\<close>

text \<open>
  JSON handling switched on, and \<^verbatim>\<open>json.loads\<close> as it answers on the text \<^verbatim>\<open>123\<close>:
  the number 123.
\<close>

definition json_platform :: platform where
  "json_platform =
     (platform_for [''FORMAT'' \<mapsto> ''json''] example_doc)
       \<lparr> loads_str := (\<lambda>s. if s = ''123'' then Inr (PInt 123) else Inl JSONDecodeError) \<rparr>"

text \<open>
  A payload that is not base64 text: \<^verbatim>\<open>b64decode\<close> raises \<^verbatim>\<open>binascii.Error\<close>. A payload
  whose bytes are not a gzip stream: reading the \<^verbatim>\<open>GzipFile\<close> raises \<^verbatim>\<open>BadGzipFile\<close>.
\<close>

definition bad_base64_platform :: platform where
  "bad_base64_platform =
     (platform_for Map.empty example_doc) \<lparr> b64decode := (\<lambda>v. Inl BinasciiError) \<rparr>"

definition not_gzip_platform :: platform where
  "not_gzip_platform =
     (platform_for Map.empty example_doc) \<lparr> gzip_read := (\<lambda>d. Inl BadGzipFile) \<rparr>"

subsection \<open>IP anonymizer\<close>

text \<open>A pattern every match of which takes at least one character.\<close>

fun consuming :: "regex \<Rightarrow> bool" where
  "consuming (Sym cs) = True"
| "consuming (Seq a b) = (consuming a \<or> consuming b)"
| "consuming (Alt a b) = (consuming a \<and> consuming b)"
| "consuming (Rep a lo hi) = (0 < lo \<and> consuming a)"
| "consuming (NotBehind cs) = False"
| "consuming (NotAhead cs) = False"

text \<open>A word character, a colon or a dot: what may not stand next to a match.\<close>

definition boundary_char :: "char \<Rightarrow> bool" where
  "boundary_char c = (c = CHR '':'' \<or> c = CHR ''.'' \<or> word_char c)"

text \<open>
  A message cut into pieces: plain text, and hits that the anonymizer replaces. The text
  of a piece, what the anonymizer writes for it, and the spans of the hits.
\<close>

datatype seg = Plain string | Hit string

fun seg_text :: "seg \<Rightarrow> string" where
  "seg_text (Plain t) = t"
| "seg_text (Hit t) = t"

fun seg_out :: "(string \<Rightarrow> int) \<Rightarrow> seg \<Rightarrow> string" where
  "seg_out h (Plain t) = t"
| "seg_out h (Hit t) = ''IP('' @ str_int (h t) @ '')''"

fun seg_spans :: "nat \<Rightarrow> seg list \<Rightarrow> (nat \<times> nat) list" where
  "seg_spans off [] = []"
| "seg_spans off (Plain t # segs) = seg_spans (off + length t) segs"
| "seg_spans off (Hit t # segs) = (off, off + length t) # seg_spans (off + length t) segs"

text \<open>The pieces of a message for a list of match spans, from position \<open>pos\<close> on.\<close>

fun segments :: "string \<Rightarrow> (nat \<times> nat) list \<Rightarrow> nat \<Rightarrow> seg list" where
  "segments msg [] pos = [Plain (drop pos msg)]"
| "segments msg ((st, en) # ms) pos =
     Plain (take (st - pos) (drop pos msg)) # Hit (take (en - st) (drop st msg))
       # segments msg ms en"

text \<open>Spans in order, each within \<open>pos\<close> and \<open>n\<close>, none overlapping another.\<close>

fun ordered_from :: "nat \<Rightarrow> (nat \<times> nat) list \<Rightarrow> nat \<Rightarrow> bool" where
  "ordered_from pos [] n = (pos \<le> n)"
| "ordered_from pos ((st, en) # ms) n = (pos \<le> st \<and> st \<le> en \<and> ordered_from en ms n)"

text \<open>A message with the same IPv4 literal twice and an IPv6 literal.\<close>

definition ip_message :: string where
  "ip_message = ''from 10.0.0.1 to ::1 via 10.0.0.1''"

text \<open>
  A pattern every match of which holds a dot or a colon: its sets of characters that
  count are made of the two alone.
\<close>

fun sep_item :: "cpat \<Rightarrow> bool" where
  "sep_item (Ch c) = (c = CHR ''.'' \<or> c = CHR '':'')"
| "sep_item _ = False"

fun has_sep :: "regex \<Rightarrow> bool" where
  "has_sep (Sym cs) = list_all sep_item cs"
| "has_sep (Seq a b) = (has_sep a \<or> has_sep b)"
| "has_sep (Alt a b) = (has_sep a \<and> has_sep b)"
| "has_sep (Rep a lo hi) = (0 < lo \<and> has_sep a)"
| "has_sep (NotBehind cs) = False"
| "has_sep (NotAhead cs) = False"

text \<open>The sets \<^verbatim>\<open>[0-9a-fA-F]\<close> and \<^verbatim>\<open>[0-9]\<close> of the pattern.\<close>

definition HEXSET :: "cpat list" where
  "HEXSET = [Rng CHR ''0'' CHR ''9'', Rng CHR ''a'' CHR ''f'', Rng CHR ''A'' CHR ''F'']"

definition DIGSET :: "cpat list" where
  "DIGSET = [Rng CHR ''0'' CHR ''9'']"

subsection \<open>Noise filter and handler\<close>

text \<open>A message that starts with one of the lifecycle markers.\<close>

definition lifecycle_marker :: "string \<Rightarrow> bool" where
  "lifecycle_marker m = (startswith m ''START'' \<or> startswith m ''END'' \<or> startswith m ''REPORT'')"

text \<open>What the loop of the handler gets for one entry of the event list.\<close>

fun outcome :: "platform \<Rightarrow> log \<Rightarrow> pyval \<Rightarrow> error + bool \<times> log" where
  "outcome pf additional_data (PDict kvs) = parse_cloudwatch_log pf (map_of kvs) additional_data"
| "outcome pf additional_data _ = Inl TypeError"

text \<open>
  The records the loop hands to the sink: those for which \<^verbatim>\<open>_parse_cloudwatch_log\<close>
  returned true, in the order of the event list.
\<close>

definition emitted :: "platform \<Rightarrow> log \<Rightarrow> pyval list \<Rightarrow> log list" where
  "emitted pf additional_data evs = [lg. Inr (True, lg) \<leftarrow> map (outcome pf additional_data) evs]"

text \<open>The platform, the metadata and the first record of the example batch.\<close>

definition example_platform :: platform where
  "example_platform = platform_for Map.empty example_doc"

definition example_metadata :: log where
  "example_metadata =
     [''service'' \<mapsto> PStr ''/aws/lambda/my-function'',
      ''logger_name'' \<mapsto> PStr ''2024/01/01/stream'',
      ''type'' \<mapsto> PStr ''logzio_cloudwatch_lambda'']"

definition noise_record :: log where
  "noise_record =
     map_of [(''id'', PStr ''1''), (''timestamp'', PInt 1704067200000),
             (''message'', PStr ''START RequestId: req-123'')]"

text \<open>A record whose message is the number 42.\<close>

definition number_record :: log where
  "number_record =
     map_of [(''id'', PStr ''3''), (''timestamp'', PInt 1704067200002), (''message'', PInt 42)]"

text \<open>
  A batch from the runtime log group whose only record has no \<^verbatim>\<open>id\<close>, and a batch from
  another log group whose second record has no \<^verbatim>\<open>id\<close>, with its metadata.
\<close>

definition doc_missing_id :: pyval where
  "doc_missing_id =
     PDict [(''logGroup'', PStr ''/aws/lambda/my-function''),
            (''logStream'', PStr ''2024/01/01/stream''),
            (''logEvents'',
               PList [PDict [(''timestamp'', PInt 1704067200000), (''message'', PStr ''hello'')]])]"

definition doc_second_missing_id :: pyval where
  "doc_second_missing_id =
     PDict [(''logGroup'', PStr ''/ecs/app''),
            (''logStream'', PStr ''2024/01/01/stream''),
            (''logEvents'',
               PList [PDict [(''id'', PStr ''1''), (''timestamp'', PInt 1704067200000),
                             (''message'', PStr ''first'')],
                      PDict [(''timestamp'', PInt 1704067200001), (''message'', PStr ''second'')]])]"

definition ecs_metadata :: log where
  "ecs_metadata =
     [''service'' \<mapsto> PStr ''/ecs/app'',
      ''logger_name'' \<mapsto> PStr ''2024/01/01/stream'',
      ''type'' \<mapsto> PStr ''logzio_cloudwatch_lambda'']"

section \<open>Properties\<close>

declare str_nat.simps [simp del]
declare finditer_from.simps [simp del]

subsection \<open>Strings\<close>

lemma find_char_None: "find_char c s = None \<longleftrightarrow> c \<notin> set s"
  by (induction s) auto

lemma find_char_Some:
  "find_char c s = Some i \<Longrightarrow> i = length (takeWhile (\<lambda>x. x \<noteq> c) s) \<and> c \<in> set s"
  by (induction s arbitrary: i) (auto split: if_splits)

lemma find_char_eq:
  "find_char c s = (if c \<in> set s then Some (length (takeWhile (\<lambda>x. x \<noteq> c) s)) else None)"
  using find_char_None[of c s] find_char_Some[of c s] by (cases "find_char c s") auto

lemma split_on_nonempty: "split_on c s \<noteq> []"
  by (induction s) (auto split: list.splits)

text \<open>Splitting is the inverse of joining with the separator.\<close>

lemma split_on_join: "join [c] (split_on c s) = s"
proof (induction s)
  case Nil
  show ?case by simp
next
  case (Cons x xs)
  show ?case
  proof (cases "x = c")
    case True
    with Cons show ?thesis
      by (cases "split_on c xs") (auto simp: split_on_nonempty)
  next
    case False
    with Cons show ?thesis
      by (cases "split_on c xs"; cases "tl (split_on c xs)") (auto simp: split_on_nonempty)
  qed
qed

lemma split_on_no_sep: "p \<in> set (split_on c s) \<Longrightarrow> c \<notin> set p"
  by (induction s arbitrary: p) (auto split: if_splits list.splits)

lemma split_on_plain: "c \<notin> set x \<Longrightarrow> split_on c x = [x]"
  by (induction x) auto

lemma split_on_append: "c \<notin> set x \<Longrightarrow> split_on c (x @ c # r) = x # split_on c r"
  by (induction x) auto

lemma split_on_unique:
  "ps \<noteq> [] \<Longrightarrow> \<forall>p \<in> set ps. c \<notin> set p \<Longrightarrow> split_on c (join [c] ps) = ps"
  by (induction "[c]" ps rule: join.induct) (auto simp: split_on_plain split_on_append)

subsection \<open>Runtime message parser\<close>

lemma level_step_spec:
  "level_step lg s =
     (case spec_level s of
        None \<Rightarrow> (lg, 0)
      | Some tok \<Rightarrow> (lg(''log_level'' \<mapsto> PStr tok),
                      length (takeWhile (\<lambda>c. c \<noteq> CHR '']'') s) + 2))"
  by (simp add: level_step_def spec_level_def str_index_def find_char_eq slice_def Let_def)

lemma extract_unfold:
  assumes "lg ''message'' = Some m"
  shows "extract_lambda_log_message lg =
     Inr (let lg1 = (case spec_level (py_str m) of
                       None \<Rightarrow> lg
                     | Some tok \<Rightarrow> lg(''log_level'' \<mapsto> PStr tok));
              parts = split_on TAB (spec_remainder (py_str m));
              n = length parts;
              lg2 = (if n = 3 \<or> n = 4
                     then lg1(''@timestamp'' \<mapsto> PStr (parts ! 0),
                              ''requestID'' \<mapsto> PStr (parts ! 1),
                              ''message'' \<mapsto> PStr (parts ! (n - 1)))
                     else lg1)
          in if n = 4 then lg2(''log_level'' \<mapsto> PStr (parts ! 2)) else lg2)"
  using assms
  by (simp add: extract_lambda_log_message_def getitem_def level_step_spec spec_remainder_def
      slice_from_def TAB_def PYTHON_EVENT_SIZE_def NODEJS_EVENT_SIZE_def Let_def
      split: option.splits)

lemma example_level: "spec_level example_message = Some ''ERROR''"
  by code_simp

lemma example_remainder:
  "spec_remainder example_message = join [TAB] [''2024-01-01T00:00:00Z'', ''req-123'', ''boom'']"
  by (simp add: spec_remainder_def example_level) (simp add: example_message_def TAB_def)

text \<open>
  C1. For a record that has a message, the parser raises no error. The remainder of
  the message is the parts joined by tabs, no part holding a tab. With exactly 3 parts
  the record gets part 0 as \<^verbatim>\<open>@timestamp\<close>, part 1 as \<^verbatim>\<open>requestID\<close> and the last part
  as \<^verbatim>\<open>message\<close>; with exactly 4 parts it gets part 2 as \<^verbatim>\<open>log_level\<close> as well, over
  the level of the bracketed token; with any other number of parts the record is as the
  level step left it.
\<close>

theorem parser_fields:
  assumes "lg ''message'' = Some m"
  shows "\<exists>lg' parts.
     extract_lambda_log_message lg = Inr lg'
     \<and> parts \<noteq> []
     \<and> join [TAB] parts = spec_remainder (py_str m)
     \<and> (\<forall>p \<in> set parts. TAB \<notin> set p)
     \<and> (let lg1 = (case spec_level (py_str m) of
                     None \<Rightarrow> lg
                   | Some tok \<Rightarrow> lg(''log_level'' \<mapsto> PStr tok))
        in (length parts = 3 \<longrightarrow>
              lg' = lg1(''@timestamp'' \<mapsto> PStr (parts ! 0), ''requestID'' \<mapsto> PStr (parts ! 1),
                        ''message'' \<mapsto> PStr (parts ! 2)))
         \<and> (length parts = 4 \<longrightarrow>
              lg' = lg1(''@timestamp'' \<mapsto> PStr (parts ! 0), ''requestID'' \<mapsto> PStr (parts ! 1),
                        ''message'' \<mapsto> PStr (parts ! 3), ''log_level'' \<mapsto> PStr (parts ! 2)))
         \<and> (length parts \<noteq> 3 \<and> length parts \<noteq> 4 \<longrightarrow> lg' = lg1))"
proof -
  let ?parts = "split_on TAB (spec_remainder (py_str m))"
  have j: "join [TAB] ?parts = spec_remainder (py_str m)"
    by (rule split_on_join)
  have n: "\<forall>p \<in> set ?parts. TAB \<notin> set p"
    using split_on_no_sep by blast
  show ?thesis
    apply (rule exI, rule exI[of _ ?parts])
    apply (intro conjI)
        apply (rule extract_unfold[of lg m, OF assms])
       apply (rule split_on_nonempty)
      apply (rule j)
     apply (rule n)
    apply (simp add: Let_def)
    done
qed

text \<open>The example of the specification: level ERROR and three parts.\<close>

theorem parser_fields_witness:
  "\<exists>lg'. extract_lambda_log_message [''message'' \<mapsto> PStr example_message] = Inr lg'
     \<and> lg' ''log_level'' = Some (PStr ''ERROR'')
     \<and> lg' ''@timestamp'' = Some (PStr ''2024-01-01T00:00:00Z'')
     \<and> lg' ''requestID'' = Some (PStr ''req-123'')
     \<and> lg' ''message'' = Some (PStr ''boom'')"
proof -
  have m: "[''message'' \<mapsto> PStr example_message] ''message'' = Some (PStr example_message)"
    by simp
  from parser_fields[of "[''message'' \<mapsto> PStr example_message]" "PStr example_message", OF m]
  obtain lg' parts where
    e: "extract_lambda_log_message [''message'' \<mapsto> PStr example_message] = Inr lg'"
    and ne: "parts \<noteq> []"
    and j: "join [TAB] parts = spec_remainder example_message"
    and n: "\<forall>p \<in> set parts. TAB \<notin> set p"
    and f: "length parts = 3 \<longrightarrow>
              lg' = ([''message'' \<mapsto> PStr example_message](''log_level'' \<mapsto> PStr ''ERROR''))
                      (''@timestamp'' \<mapsto> PStr (parts ! 0), ''requestID'' \<mapsto> PStr (parts ! 1),
                       ''message'' \<mapsto> PStr (parts ! 2))"
    by (auto simp: example_level Let_def)
  have "split_on TAB (join [TAB] parts) = parts"
    using ne n by (rule split_on_unique)
  moreover have "split_on TAB (join [TAB] [''2024-01-01T00:00:00Z'', ''req-123'', ''boom''])
                  = [''2024-01-01T00:00:00Z'', ''req-123'', ''boom'']"
    by (rule split_on_unique) (simp_all add: TAB_def)
  ultimately have p: "parts = [''2024-01-01T00:00:00Z'', ''req-123'', ''boom'']"
    using j example_remainder by simp
  from f p have
    "lg' = ([''message'' \<mapsto> PStr example_message](''log_level'' \<mapsto> PStr ''ERROR''))
             (''@timestamp'' \<mapsto> PStr ''2024-01-01T00:00:00Z'', ''requestID'' \<mapsto> PStr ''req-123'',
              ''message'' \<mapsto> PStr ''boom'')"
    by simp
  with e show ?thesis by simp
qed

subsection \<open>Sequencing\<close>

lemma bind_Inr_iff: "bind m f = Inr y \<longleftrightarrow> (\<exists>x. m = Inr x \<and> f x = Inr y)"
  by (cases m) auto

lemma bind_Inl_iff: "bind m f = Inl e \<longleftrightarrow> m = Inl e \<or> (\<exists>x. m = Inr x \<and> f x = Inl e)"
  by (cases m) auto

lemma str_int_5: "str_int 5 = ''5''"
  by code_simp

subsection \<open>Timestamp step\<close>

text \<open>
  C8, as the specification states it, fails: a record that arrives with both
  \<^verbatim>\<open>@timestamp\<close> and \<^verbatim>\<open>timestamp\<close> leaves the step unchanged, with both keys.
\<close>

theorem timestamp_both_kept:
  "add_timestamp both_timestamps = Inr both_timestamps
   \<and> both_timestamps ''@timestamp'' = Some (PStr ''2024-01-01T00:00:00Z'')
   \<and> both_timestamps ''timestamp'' = Some (PInt 1704067200000)"
  by (simp add: add_timestamp_def both_timestamps_def)

text \<open>
  C8, amended. A record without \<^verbatim>\<open>@timestamp\<close> and without \<^verbatim>\<open>timestamp\<close> raises
  \<open>KeyError\<close>. A record without \<^verbatim>\<open>@timestamp\<close> that has \<^verbatim>\<open>timestamp\<close> gets
  \<^verbatim>\<open>@timestamp\<close> as the string of that value and loses \<^verbatim>\<open>timestamp\<close>, every other
  field kept: exactly one of the two keys exists afterwards. A record that has
  \<^verbatim>\<open>@timestamp\<close> is left as it is, with its \<^verbatim>\<open>timestamp\<close> field if it has one.
\<close>

theorem timestamp_step:
  "(lg ''@timestamp'' = None \<and> lg ''timestamp'' = None \<longrightarrow> add_timestamp lg = Inl KeyError)
   \<and> (\<forall>t. lg ''@timestamp'' = None \<and> lg ''timestamp'' = Some t \<longrightarrow>
         (\<exists>lg'. add_timestamp lg = Inr lg'
            \<and> lg' ''@timestamp'' = Some (PStr (py_str t))
            \<and> lg' ''timestamp'' = None
            \<and> (\<forall>k. k \<noteq> ''@timestamp'' \<and> k \<noteq> ''timestamp'' \<longrightarrow> lg' k = lg k)))
   \<and> (lg ''@timestamp'' \<noteq> None \<longrightarrow> add_timestamp lg = Inr lg)"
  by (simp add: add_timestamp_def getitem_def delitem_def)

theorem timestamp_step_witness:
  "\<exists>lg'. add_timestamp [''timestamp'' \<mapsto> PInt 5] = Inr lg'
      \<and> lg' ''@timestamp'' = Some (PStr ''5'') \<and> lg' ''timestamp'' = None"
  using timestamp_step[of "[''timestamp'' \<mapsto> PInt 5]"] by (simp add: str_int_5) blast

subsection \<open>Metadata of a batch\<close>

lemma split_on_head:
  "split_on c s = takeWhile (\<lambda>x. x \<noteq> c) s #
     (if c \<in> set s then split_on c (tl (dropWhile (\<lambda>x. x \<noteq> c) s)) else [])"
  by (induction s) (auto split: list.splits)

lemma split_on_two:
  assumes "c \<in> set p"
  shows "\<exists>rest. split_on c p = takeWhile (\<lambda>x. x \<noteq> c) p
           # takeWhile (\<lambda>x. x \<noteq> c) (tl (dropWhile (\<lambda>x. x \<noteq> c) p)) # rest"
proof -
  have "split_on c p = takeWhile (\<lambda>x. x \<noteq> c) p # split_on c (tl (dropWhile (\<lambda>x. x \<noteq> c) p))"
    using assms split_on_head[of c p] by simp
  then show ?thesis
    using split_on_head[of c "tl (dropWhile (\<lambda>x. x \<noteq> c) p)"] by simp
qed

lemma enrich_loop_pairs:
  "\<forall>p \<in> set ps. CHR ''='' \<in> set p \<Longrightarrow>
   enrich_loop ps ad = Inr (ad ++ map_of (rev (map spec_pair ps)))"
proof (induction ps arbitrary: ad)
  case Nil
  show ?case by simp
next
  case (Cons p ps)
  from Cons.prems have "CHR ''='' \<in> set p" by simp
  from split_on_two[OF this] obtain rest where
    s: "split_on CHR ''='' p = fst (spec_pair p) # (case snd (spec_pair p) of PStr v \<Rightarrow> v) # rest"
    by (auto simp: spec_pair_def)
  have "enrich_loop (p # ps) ad = enrich_loop ps (ad(fst (spec_pair p) \<mapsto> snd (spec_pair p)))"
    by (simp add: s list_get_def KEY_INDEX_def VALUE_INDEX_def) (simp add: spec_pair_def)
  also have "\<dots> = Inr (ad(fst (spec_pair p) \<mapsto> snd (spec_pair p)) ++ map_of (rev (map spec_pair ps)))"
    using Cons.prems by (intro Cons.IH) simp
  also have "ad(fst (spec_pair p) \<mapsto> snd (spec_pair p)) ++ map_of (rev (map spec_pair ps))
             = ad ++ map_of (rev (map spec_pair (p # ps)))"
    by (cases "spec_pair p") (simp add: map_add_def fun_eq_iff split: option.splits)
  finally show ?case .
qed

lemma additional_data_pairs:
  assumes "subscript doc ''logGroup'' = Inr g"
    and "subscript doc ''logStream'' = Inr st"
    and "environ pf ''ENRICH'' = Some e"
    and "e \<noteq> []"
    and "\<forall>p \<in> set (split_on CHR '';'' e). CHR ''='' \<in> set p"
  shows "get_additional_logs_data pf doc =
           Inr (([''service'' \<mapsto> g, ''logger_name'' \<mapsto> st]
                   ++ map_of (rev (map spec_pair (split_on CHR '';'' e))))
                (''type'' \<mapsto> PStr (case environ pf ''TYPE'' of
                                       Some t \<Rightarrow> t
                                     | None \<Rightarrow> ''logzio_cloudwatch_lambda'')))"
  using assms by (simp add: get_additional_logs_data_def enrich_loop_pairs)

lemma parse_to_json_off: "\<not> json_enabled pf \<Longrightarrow> parse_to_json pf lg = Inr lg"
  by (simp add: parse_to_json_def parse_to_json_body_def json_enabled_def split: option.splits)

lemma finish_log_enriched:
  "finish_log pf lg ad = Inr (keep, lg') \<Longrightarrow> \<not> json_enabled pf \<Longrightarrow> ad k = Some v
   \<Longrightarrow> lg' k = Some v"
  by (auto simp: finish_log_def bind_Inr_iff parse_to_json_off)

lemma emitted_enriched:
  assumes "parse_cloudwatch_log pf lg ad = Inr (True, lg')"
    and "\<not> json_enabled pf"
    and "ad k = Some v"
  shows "lg' k = Some v"
  using assms finish_log_enriched[of pf _ ad True lg' k v]
  by (auto simp: parse_cloudwatch_log_def bind_Inr_iff split: if_splits)

lemma enrich_pieces: "split_on CHR '';'' ''env=prod;team=core'' = [''env=prod'', ''team=core'']"
  by code_simp

lemma enrich_pair_env: "spec_pair ''env=prod'' = (''env'', PStr ''prod'')"
  by code_simp

lemma enrich_pair_team: "spec_pair ''team=core'' = (''team'', PStr ''core'')"
  by code_simp

text \<open>
  C5, as the specification states it, fails: a piece is split on every \<^verbatim>\<open>=\<close> and the
  value is the second part, so the value of \<^verbatim>\<open>k=a=b\<close> is \<^verbatim>\<open>a\<close>, not \<^verbatim>\<open>a=b\<close>.
\<close>

theorem enrichment_value_cut:
  "get_additional_logs_data (platform_for enrich_env_eq example_doc) example_doc
     = Inr [''service'' \<mapsto> PStr ''/aws/lambda/my-function'',
            ''logger_name'' \<mapsto> PStr ''2024/01/01/stream'',
            ''k'' \<mapsto> PStr ''a'',
            ''type'' \<mapsto> PStr ''logzio_cloudwatch_lambda'']
   \<and> [''service'' \<mapsto> PStr ''/aws/lambda/my-function'',
       ''logger_name'' \<mapsto> PStr ''2024/01/01/stream'',
       ''k'' \<mapsto> PStr ''a'',
       ''type'' \<mapsto> PStr ''logzio_cloudwatch_lambda''] ''k'' \<noteq> Some (PStr ''a=b'')"
proof -
  have "split_on CHR '';'' ''k=a=b'' = [''k=a=b'']"
    by code_simp
  moreover have "split_on CHR ''='' ''k=a=b'' = [''k'', ''a'', ''b'']"
    by code_simp
  ultimately show ?thesis
    by (simp add: get_additional_logs_data_def platform_for_def enrich_env_eq_def example_doc_def
        list_get_def KEY_INDEX_def VALUE_INDEX_def)
qed

text \<open>
  C5, amended. For a non-empty enrichment string whose pieces between \<^verbatim>\<open>;\<close> all have
  an \<^verbatim>\<open>=\<close>, the builder returns \<^verbatim>\<open>service\<close> and \<^verbatim>\<open>logger_name\<close>, then for each piece
  the text before its first \<^verbatim>\<open>=\<close> as key with the text between its first and second
  \<^verbatim>\<open>=\<close> as value, a later piece winning over an earlier one and over the two names,
  then \<^verbatim>\<open>type\<close>. Every record emitted with this metadata while JSON handling is off
  holds each of its pairs.
\<close>

theorem enrichment_pairs:
  assumes "subscript doc ''logGroup'' = Inr g"
    and "subscript doc ''logStream'' = Inr st"
    and "environ pf ''ENRICH'' = Some e"
    and "e \<noteq> []"
    and "\<forall>p \<in> set (split_on CHR '';'' e). CHR ''='' \<in> set p"
  shows "\<exists>ad. get_additional_logs_data pf doc = Inr ad
          \<and> ad = ([''service'' \<mapsto> g, ''logger_name'' \<mapsto> st]
                   ++ map_of (rev (map spec_pair (split_on CHR '';'' e))))
                (''type'' \<mapsto> PStr (case environ pf ''TYPE'' of
                                       Some t \<Rightarrow> t
                                     | None \<Rightarrow> ''logzio_cloudwatch_lambda''))
          \<and> ad ''service'' \<noteq> None \<and> ad ''logger_name'' \<noteq> None
          \<and> (\<forall>lg lg' k v. parse_cloudwatch_log pf lg ad = Inr (True, lg') \<and> \<not> json_enabled pf
                 \<and> ad k = Some v \<longrightarrow> lg' k = Some v)"
proof -
  let ?ad = "([''service'' \<mapsto> g, ''logger_name'' \<mapsto> st]
                   ++ map_of (rev (map spec_pair (split_on CHR '';'' e))))
                (''type'' \<mapsto> PStr (case environ pf ''TYPE'' of
                                       Some t \<Rightarrow> t
                                     | None \<Rightarrow> ''logzio_cloudwatch_lambda''))"
  have 1: "get_additional_logs_data pf doc = Inr ?ad"
    using assms by (rule additional_data_pairs)
  have 2: "?ad ''service'' \<noteq> None" "?ad ''logger_name'' \<noteq> None"
    by (simp_all add: map_add_def split: option.splits)
  have 3: "\<forall>lg lg' k v. parse_cloudwatch_log pf lg ?ad = Inr (True, lg') \<and> \<not> json_enabled pf
                 \<and> ?ad k = Some v \<longrightarrow> lg' k = Some v"
    using emitted_enriched by blast
  from 1 2 3 show ?thesis by blast
qed

text \<open>The example of the specification: \<^verbatim>\<open>env=prod;team=core\<close>.\<close>

theorem enrichment_pairs_witness:
  "\<exists>ad. get_additional_logs_data (platform_for enrich_env example_doc) example_doc = Inr ad
      \<and> ad ''env'' = Some (PStr ''prod'') \<and> ad ''team'' = Some (PStr ''core'')
      \<and> ad ''service'' = Some (PStr ''/aws/lambda/my-function'')
      \<and> ad ''logger_name'' = Some (PStr ''2024/01/01/stream'')
      \<and> ad ''type'' = Some (PStr ''logzio_cloudwatch_lambda'')"
proof -
  have g: "subscript example_doc ''logGroup'' = Inr (PStr ''/aws/lambda/my-function'')"
    and st: "subscript example_doc ''logStream'' = Inr (PStr ''2024/01/01/stream'')"
    by (simp_all add: example_doc_def)
  have e: "environ (platform_for enrich_env example_doc) ''ENRICH'' = Some ''env=prod;team=core''"
    and t: "environ (platform_for enrich_env example_doc) ''TYPE'' = None"
    by (simp_all add: platform_for_def enrich_env_def)
  have ne: "''env=prod;team=core'' \<noteq> []"
    by simp
  have eq: "\<forall>p \<in> set (split_on CHR '';'' ''env=prod;team=core''). CHR ''='' \<in> set p"
    by (simp add: enrich_pieces)
  from enrichment_pairs[OF g st e ne eq]
  show ?thesis
    by (simp add: enrich_pieces enrich_pair_env enrich_pair_team t)
qed

lemma str_lower_json: "str_lower ''json'' = ''json''"
  by code_simp

subsection \<open>JSON flattener\<close>

lemma parse_to_json_on:
  assumes "json_enabled pf"
  shows "parse_to_json pf lg =
     (case bind (getitem lg ''message'') (\<lambda>m.
            bind (json_loads pf m) (\<lambda>json_object.
            bind (items json_object) (\<lambda>kvs.
              Inr (fold (\<lambda>(key, val) l. l(key \<mapsto> val)) kvs lg)))) of
        Inl e \<Rightarrow> if e = KeyError \<or> is_ValueError e then Inr lg else Inl e
      | Inr lg' \<Rightarrow> Inr lg')"
  using assms
  by (auto simp: parse_to_json_def parse_to_json_body_def json_enabled_def split: option.splits)

lemma items_not_dict: "\<forall>kvs. v \<noteq> PDict kvs \<Longrightarrow> items v = Inl AttributeError"
  by (cases v) simp_all

text \<open>
  What the flattener does, case by case: nothing when JSON handling is off, when the
  record has no message or when \<^verbatim>\<open>json.loads\<close> raises a \<open>ValueError\<close>; the merge of
  every top-level key when the message decodes to an object; \<open>AttributeError\<close> when the
  message decodes to a value that is not an object.
\<close>

lemma json_flattener_cases:
  "(\<not> json_enabled pf \<longrightarrow> parse_to_json pf lg = Inr lg)
   \<and> (json_enabled pf \<and> lg ''message'' = None \<longrightarrow> parse_to_json pf lg = Inr lg)
   \<and> (\<forall>m e. json_enabled pf \<and> lg ''message'' = Some (PStr m) \<and> loads_str pf m = Inl e \<longrightarrow>
         parse_to_json pf lg = (if e = KeyError \<or> is_ValueError e then Inr lg else Inl e))
   \<and> (\<forall>m kvs. json_enabled pf \<and> lg ''message'' = Some (PStr m) \<and> loads_str pf m = Inr (PDict kvs) \<longrightarrow>
         parse_to_json pf lg = Inr (fold (\<lambda>(key, val) l. l(key \<mapsto> val)) kvs lg))
   \<and> (\<forall>m v. json_enabled pf \<and> lg ''message'' = Some (PStr m) \<and> loads_str pf m = Inr v
            \<and> (\<forall>kvs. v \<noteq> PDict kvs) \<longrightarrow>
         parse_to_json pf lg = Inl AttributeError)"
  by (simp add: parse_to_json_off parse_to_json_on getitem_def items_not_dict)

lemma fold_merge_other: "k \<notin> set (map fst kvs) \<Longrightarrow> fold (\<lambda>(key, val) l. l(key \<mapsto> val)) kvs lg k = lg k"
  by (induction kvs arbitrary: lg) auto

lemma fold_merge_key:
  "distinct (map fst kvs) \<Longrightarrow> (k, v) \<in> set kvs \<Longrightarrow> fold (\<lambda>(key, val) l. l(key \<mapsto> val)) kvs lg k = Some v"
  by (induction kvs arbitrary: lg) (auto simp: fold_merge_other)

text \<open>
  C4. With JSON handling on, the message \<^verbatim>\<open>123\<close> decodes to a number, which has no
  \<^verbatim>\<open>items\<close>: the flattener raises \<open>AttributeError\<close>, which its handler for \<open>KeyError\<close>
  and \<open>ValueError\<close> does not catch.
\<close>

theorem json_number_message_raises:
  "parse_to_json json_platform [''message'' \<mapsto> PStr ''123''] = Inl AttributeError"
  by (simp add: parse_to_json_def parse_to_json_body_def json_platform_def platform_for_def
      getitem_def str_lower_json)

subsection \<open>Batch decoder\<close>

text \<open>
  C6, as the specification states it, fails: a payload that is not base64 text ends in
  \<open>ValueError\<close>, a payload that is not a gzip stream ends in \<open>BadGzipFile\<close>, an
  \<open>OSError\<close> that the handler for \<open>ValueError\<close> does not catch. The failures are not
  of a single class.
\<close>

theorem decoder_two_classes:
  "extract_aws_logs_data bad_base64_platform example_event = Inl ValueError
   \<and> extract_aws_logs_data not_gzip_platform example_event = Inl BadGzipFile"
  by (simp add: extract_aws_logs_data_def bad_base64_platform_def not_gzip_platform_def
      platform_for_def example_event_def)

text \<open>
  C6, amended. When base64 decoding, reading the gzip stream or JSON parsing raises an
  error of the \<open>ValueError\<close> class, the decoder raises \<open>ValueError\<close>; an error of
  another class it lets through as it is. When the three steps succeed it returns the
  parsed document. An error of the decoder ends the handler with that error before any
  call on the sink.
\<close>

theorem decoder_outcomes:
  assumes "subscript event ''awslogs'' = Inr a" and "subscript a ''data'' = Inr event_str"
  shows "(\<forall>e. b64decode pf event_str = Inl e \<longrightarrow>
            extract_aws_logs_data pf event = Inl (if is_ValueError e then ValueError else e))
       \<and> (\<forall>d e. b64decode pf event_str = Inr d \<and> gzip_read pf d = Inl e \<longrightarrow>
            extract_aws_logs_data pf event = Inl (if is_ValueError e then ValueError else e))
       \<and> (\<forall>d u e. b64decode pf event_str = Inr d \<and> gzip_read pf d = Inr u \<and> loads_bytes pf u = Inl e \<longrightarrow>
            extract_aws_logs_data pf event = Inl (if is_ValueError e then ValueError else e))
       \<and> (\<forall>d u doc. b64decode pf event_str = Inr d \<and> gzip_read pf d = Inr u \<and> loads_bytes pf u = Inr doc \<longrightarrow>
            extract_aws_logs_data pf event = Inr doc)
       \<and> (\<forall>e. extract_aws_logs_data pf event = Inl e \<longrightarrow> lambda_handler pf event = (Some e, []))"
  using assms by (simp add: extract_aws_logs_data_def lambda_handler_def)

theorem decoder_outcomes_witness:
  "lambda_handler not_gzip_platform example_event = (Some BadGzipFile, [])
   \<and> lambda_handler bad_base64_platform example_event = (Some ValueError, [])"
proof -
  have a: "subscript example_event ''awslogs'' = Inr (PDict [(''data'', PStr ''H4sIAAAAAAAA'')])"
    by (simp add: example_event_def)
  have d: "subscript (PDict [(''data'', PStr ''H4sIAAAAAAAA'')]) ''data'' = Inr (PStr ''H4sIAAAAAAAA'')"
    by simp
  have 1: "b64decode not_gzip_platform (PStr ''H4sIAAAAAAAA'') = Inr ''H4sIAAAAAAAA''"
    and 2: "gzip_read not_gzip_platform ''H4sIAAAAAAAA'' = Inl BadGzipFile"
    and 3: "b64decode bad_base64_platform (PStr ''H4sIAAAAAAAA'') = Inl BinasciiError"
    by (simp_all add: not_gzip_platform_def bad_base64_platform_def platform_for_def)
  from decoder_outcomes[OF a d, of not_gzip_platform] 1 2
  have "lambda_handler not_gzip_platform example_event = (Some BadGzipFile, [])"
    by simp
  moreover from decoder_outcomes[OF a d, of bad_base64_platform] 3
  have "lambda_handler bad_base64_platform example_event = (Some ValueError, [])"
    by simp
  ultimately show ?thesis by simp
qed

subsection \<open>The matcher\<close>

lemma rep_bounds:
  assumes f: "\<And>j e. j \<le> n \<Longrightarrow> e \<in> set (f j) \<Longrightarrow> j \<le> e \<and> e \<le> n"
  shows "i \<le> n \<Longrightarrow> e \<in> set (rep f lo hi i) \<Longrightarrow> i \<le> e \<and> e \<le> n"
proof (induction hi arbitrary: i lo)
  case 0
  then show ?case by (auto split: if_splits)
next
  case (Suc hi)
  from Suc.prems(2) consider
    j where "j \<in> set (f i)" "e \<in> set (rep f (lo - 1) hi j)" | "e = i"
    by (auto split: if_splits)
  then show ?case
  proof cases
    case 1
    with f[of i j] Suc.prems(1) have "i \<le> j" "j \<le> n" by auto
    with Suc.IH[of j "lo - 1"] 1 show ?thesis by auto
  next
    case 2
    with Suc.prems show ?thesis by simp
  qed
qed

lemma rmatch_bounds:
  "i \<le> length s \<Longrightarrow> e \<in> set (rmatch r s i) \<Longrightarrow> i \<le> e \<and> e \<le> length s"
proof (induction r arbitrary: i e)
  case (Sym cs)
  from Sym(2) have "e = Suc i \<and> i < length s"
    by (simp split: if_splits)
  then show ?case by simp
next
  case (Seq a b)
  from Seq.prems(2) obtain j where j: "j \<in> set (rmatch a s i)" "e \<in> set (rmatch b s j)"
    by auto
  from Seq.IH(1)[OF Seq.prems(1) j(1)] have ij: "i \<le> j" "j \<le> length s"
    by simp_all
  from Seq.IH(2)[OF ij(2) j(2)] ij(1) show ?case
    by simp
next
  case (Alt a b)
  from Alt.prems(2) have "e \<in> set (rmatch a s i) \<or> e \<in> set (rmatch b s i)"
    by simp
  then show ?case
    using Alt.IH(1)[OF Alt.prems(1)] Alt.IH(2)[OF Alt.prems(1)] by blast
next
  case (Rep a lo hi)
  have f: "j \<le> e \<and> e \<le> length s" if "j \<le> length s" "e \<in> set (rmatch a s j)" for j e
    using Rep.IH[OF that] .
  from Rep.prems(2) have "e \<in> set (rep (\<lambda>j. rmatch a s j) lo
      (case hi of Some h \<Rightarrow> h | None \<Rightarrow> length s - i) i)"
    by simp
  from rep_bounds[of "length s" "\<lambda>j. rmatch a s j", OF f Rep.prems(1) this]
  show ?case .
next
  case (NotBehind cs)
  from NotBehind(2) have "e = i"
    by (simp split: if_splits)
  with NotBehind(1) show ?case by simp
next
  case (NotAhead cs)
  from NotAhead(2) have "e = i"
    by (simp split: if_splits)
  with NotAhead(1) show ?case by simp
qed

lemma rep_consuming:
  assumes f: "\<And>j e. j \<le> n \<Longrightarrow> e \<in> set (f j) \<Longrightarrow> j < e \<and> e \<le> n"
    and lo: "0 < lo" and i: "i \<le> n" and e: "e \<in> set (rep f lo hi i)"
  shows "i < e"
proof (cases hi)
  case 0
  with lo e show ?thesis by simp
next
  case (Suc hi')
  with lo e obtain j where j: "j \<in> set (f i)" "e \<in> set (rep f (lo - 1) hi' j)"
    by auto
  from f[OF i j(1)] have ij: "i < j" "j \<le> n"
    by simp_all
  have "j \<le> e \<and> e \<le> n" if "j \<le> n" "e \<in> set (f j)" for j e
    using f[OF that] by simp
  from rep_bounds[of n f j e "lo - 1" hi', OF this ij(2) j(2)] have "j \<le> e"
    by simp
  with ij show ?thesis by simp
qed

lemma rmatch_consuming:
  "consuming r \<Longrightarrow> i \<le> length s \<Longrightarrow> e \<in> set (rmatch r s i) \<Longrightarrow> i < e"
proof (induction r arbitrary: i e)
  case (Sym cs)
  from Sym(3) have "e = Suc i"
    by (simp split: if_splits)
  then show ?case by simp
next
  case (Seq a b)
  from Seq.prems(3) obtain j where j: "j \<in> set (rmatch a s i)" "e \<in> set (rmatch b s j)"
    by auto
  from rmatch_bounds[OF Seq.prems(2) j(1)] have ij: "i \<le> j" "j \<le> length s"
    by simp_all
  from rmatch_bounds[OF ij(2) j(2)] have je: "j \<le> e"
    by simp
  from Seq.prems(1) have "consuming a \<or> consuming b"
    by simp
  then show ?case
  proof
    assume "consuming a"
    from Seq.IH(1)[OF this Seq.prems(2) j(1)] je show ?thesis by simp
  next
    assume "consuming b"
    from Seq.IH(2)[OF this ij(2) j(2)] ij show ?thesis by simp
  qed
next
  case (Alt a b)
  from Alt.prems(1) have c: "consuming a" "consuming b"
    by simp_all
  from Alt.prems(3) have "e \<in> set (rmatch a s i) \<or> e \<in> set (rmatch b s i)"
    by simp
  then show ?case
    using Alt.IH(1)[OF c(1) Alt.prems(2)] Alt.IH(2)[OF c(2) Alt.prems(2)] by blast
next
  case (Rep a lo hi)
  from Rep.prems(1) have lo: "0 < lo" and ca: "consuming a"
    by simp_all
  have f: "j < e \<and> e \<le> length s" if "j \<le> length s" "e \<in> set (rmatch a s j)" for j e
    using Rep.IH[OF ca that] rmatch_bounds[OF that] by simp
  from Rep.prems(3) have "e \<in> set (rep (\<lambda>j. rmatch a s j) lo
      (case hi of Some h \<Rightarrow> h | None \<Rightarrow> length s - i) i)"
    by simp
  from rep_consuming[of "length s" "\<lambda>j. rmatch a s j", OF f lo Rep.prems(2) this]
  show ?case .
next
  case (NotBehind cs)
  then show ?case by simp
next
  case (NotAhead cs)
  then show ?case by simp
qed

lemma consuming_IP_BODY: "consuming IP_BODY"
  by code_simp

lemma code_lower_char:
  "code (lower_char c) =
     (if (65 \<le> code c \<and> code c \<le> 90) \<or> (192 \<le> code c \<and> code c \<le> 222 \<and> code c \<noteq> 215)
      then code c + 32 else code c)"
  by (simp add: lower_char_def code_def Let_def)

lemma code_eq_iff: "code c = code d \<longleftrightarrow> c = d"
  by (simp add: code_def)

lemma code_colon: "code CHR '':'' = 58"
  by (simp add: code_def)

lemma code_dot: "code CHR ''.'' = 46"
  by (simp add: code_def)

lemma cmatch_colon: "cmatch (Ch CHR '':'') c \<longleftrightarrow> c = CHR '':''"
proof -
  have "cmatch (Ch CHR '':'') c \<longleftrightarrow> code (lower_char c) = code (lower_char CHR '':'')"
    by (simp add: code_eq_iff)
  also have "\<dots> \<longleftrightarrow> code c = code CHR '':''"
    by (simp add: code_lower_char code_colon)
  finally show ?thesis by (simp add: code_eq_iff)
qed

lemma cmatch_dot: "cmatch (Ch CHR ''.'') c \<longleftrightarrow> c = CHR ''.''"
proof -
  have "cmatch (Ch CHR ''.'') c \<longleftrightarrow> code (lower_char c) = code (lower_char CHR ''.'')"
    by (simp add: code_eq_iff)
  also have "\<dots> \<longleftrightarrow> code c = code CHR ''.''"
    by (simp add: code_lower_char code_dot)
  finally show ?thesis by (simp add: code_eq_iff)
qed

lemma in_set_BOUNDARY: "in_set BOUNDARY c = boundary_char c"
  by (simp add: in_set_def BOUNDARY_def boundary_char_def cmatch_colon cmatch_dot
      del: cmatch.simps(1))

lemma concat_map_if: "concat (map (\<lambda>e. if P e then [] else [e]) xs) = filter (\<lambda>e. \<not> P e) xs"
  by (induction xs) simp_all

lemma rmatch_NotAhead:
  "rmatch (NotAhead cs) s = (\<lambda>i. if i < length s \<and> in_set cs (s ! i) then [] else [i])"
  by (rule ext) simp

lemma rmatch_IP_PATTERN:
  "rmatch IP_PATTERN s i =
     (if 0 < i \<and> boundary_char (s ! (i - 1)) then []
      else filter (\<lambda>e. \<not> (e < length s \<and> boundary_char (s ! e))) (rmatch IP_BODY s i))"
  by (simp add: IP_PATTERN_def rmatch_NotAhead in_set_BOUNDARY concat_map_if)

lemma match_at_mem: "match_at r s i = Some e \<Longrightarrow> e \<in> set (rmatch r s i)"
  by (cases "rmatch r s i") (simp_all add: match_at_def)

lemma match_at_bounds: "match_at r s i = Some e \<Longrightarrow> i \<le> length s \<Longrightarrow> i \<le> e \<and> e \<le> length s"
  using match_at_mem[of r s i e] rmatch_bounds[of i s e r] by simp

lemma match_at_IP:
  assumes "match_at IP_PATTERN s i = Some e" and "i \<le> length s"
  shows "i < e \<and> e \<le> length s \<and> (i = 0 \<or> \<not> boundary_char (s ! (i - 1)))
         \<and> (e = length s \<or> \<not> boundary_char (s ! e))"
proof -
  from match_at_mem[OF assms(1)] have m: "e \<in> set (rmatch IP_PATTERN s i)" .
  then have nb: "\<not> (0 < i \<and> boundary_char (s ! (i - 1)))"
    and b: "e \<in> set (rmatch IP_BODY s i)"
    and na: "\<not> (e < length s \<and> boundary_char (s ! e))"
    by (auto simp: rmatch_IP_PATTERN split: if_splits)
  from rmatch_consuming[OF consuming_IP_BODY assms(2) b] have "i < e" .
  moreover from rmatch_bounds[OF assms(2) b] have "e \<le> length s" by simp
  ultimately show ?thesis using nb na by auto
qed

subsection \<open>Scanning for matches\<close>

lemma finditer_from_past: "length s < i \<Longrightarrow> finditer_from r s i = []"
  by (simp add: finditer_from.simps)

lemma finditer_from_None:
  "i \<le> length s \<Longrightarrow> match_at r s i = None \<Longrightarrow> finditer_from r s i = finditer_from r s (Suc i)"
  by (subst finditer_from.simps) simp

lemma finditer_from_Some:
  "i \<le> length s \<Longrightarrow> match_at r s i = Some e \<Longrightarrow>
   finditer_from r s i = (i, e) # finditer_from r s (if i < e then e else Suc i)"
  by (subst finditer_from.simps) simp

lemma finditer_from_spans:
  "(st, en) \<in> set (finditer_from r s i) \<Longrightarrow> i \<le> st \<and> st \<le> length s \<and> match_at r s st = Some en"
proof (induction r s i rule: finditer_from.induct)
  case (1 r s i)
  show ?case
  proof (cases "length s < i")
    case True
    with "1.prems" show ?thesis by (simp add: finditer_from_past)
  next
    case False
    then have i: "i \<le> length s" by simp
    show ?thesis
    proof (cases "match_at r s i")
      case None
      with "1.prems" i have "(st, en) \<in> set (finditer_from r s (Suc i))"
        by (simp add: finditer_from_None)
      from "1.IH"(1)[OF False None this] show ?thesis by simp
    next
      case (Some e)
      with "1.prems" i have
        "(st, en) = (i, e) \<or> (st, en) \<in> set (finditer_from r s (if i < e then e else Suc i))"
        by (simp add: finditer_from_Some)
      then show ?thesis
      proof
        assume "(st, en) = (i, e)"
        with Some i show ?thesis by simp
      next
        assume "(st, en) \<in> set (finditer_from r s (if i < e then e else Suc i))"
        from "1.IH"(2)[OF False Some this] show ?thesis by (simp split: if_splits)
      qed
    qed
  qed
qed

lemma ordered_from_weaken: "ordered_from a ms n \<Longrightarrow> b \<le> a \<Longrightarrow> ordered_from b ms n"
  by (cases ms) auto

lemma finditer_from_next: "i \<le> length s \<Longrightarrow> ordered_from (Suc i) (finditer_from r s (Suc i)) (length s)
    \<or> finditer_from r s (Suc i) = [] \<Longrightarrow> ordered_from i (finditer_from r s (Suc i)) (length s)"
  by (auto intro: ordered_from_weaken)

lemma finditer_from_ordered:
  "i \<le> length s \<Longrightarrow> ordered_from i (finditer_from r s i) (length s)"
proof (induction r s i rule: finditer_from.induct)
  case (1 r s i)
  from "1.prems" have nl: "\<not> length s < i" by simp
  have step: "ordered_from i (finditer_from r s (Suc i)) (length s)"
    if "match_at r s i = None \<or> (\<exists>e. match_at r s i = Some e \<and> \<not> i < e)"
  proof (cases "Suc i \<le> length s")
    case True
    from that have "ordered_from (Suc i) (finditer_from r s (Suc i)) (length s)"
    proof
      assume n: "match_at r s i = None"
      from "1.IH"(1)[OF nl n True] show ?thesis .
    next
      assume "\<exists>e. match_at r s i = Some e \<and> \<not> i < e"
      then obtain e where e: "match_at r s i = Some e" "\<not> i < e" by blast
      from "1.IH"(2)[OF nl e(1)] e(2) True show ?thesis by simp
    qed
    then show ?thesis by (rule ordered_from_weaken) simp
  next
    case False
    then have "finditer_from r s (Suc i) = []" by (simp add: finditer_from_past)
    with "1.prems" show ?thesis by simp
  qed
  show ?case
  proof (cases "match_at r s i")
    case None
    with step "1.prems" show ?thesis by (simp add: finditer_from_None)
  next
    case (Some e)
    from match_at_bounds[OF Some "1.prems"] have b: "i \<le> e" "e \<le> length s" by simp_all
    show ?thesis
    proof (cases "i < e")
      case True
      from "1.IH"(2)[OF nl Some] True b have "ordered_from e (finditer_from r s e) (length s)"
        by simp
      with Some "1.prems" True show ?thesis by (simp add: finditer_from_Some)
    next
      case False
      with b have "e = i" by simp
      from step Some False have "ordered_from i (finditer_from r s (Suc i)) (length s)" by blast
      with Some "1.prems" False \<open>e = i\<close> show ?thesis by (simp add: finditer_from_Some)
    qed
  qed
qed

lemma ordered_from_sorted:
  "ordered_from pos ms n \<Longrightarrow>
     sorted_wrt (\<lambda>a b. snd a \<le> fst b) ms \<and> (\<forall>(st, en) \<in> set ms. pos \<le> st \<and> en \<le> n)"
proof (induction ms arbitrary: pos)
  case Nil
  show ?case by simp
next
  case (Cons m ms)
  obtain st en where m: "m = (st, en)" by (cases m)
  from Cons.prems m have p: "pos \<le> st" "st \<le> en" "ordered_from en ms n" by simp_all
  from Cons.IH[OF p(3)] have
    s: "sorted_wrt (\<lambda>a b. snd a \<le> fst b) ms" and a: "\<forall>(st', en') \<in> set ms. en \<le> st' \<and> en' \<le> n"
    by simp_all
  have "en \<le> n"
    using p(3) a by (cases ms) auto
  with s a p m show ?case by auto
qed

lemma finditer_from_leftmost:
  "i \<le> j \<Longrightarrow> j \<le> length s \<Longrightarrow>
   \<forall>(st, en) \<in> set (finditer_from r s i). (j < st \<or> en \<le> j) \<and> j \<noteq> st \<Longrightarrow>
   match_at r s j = None"
proof (induction r s i rule: finditer_from.induct)
  case (1 r s i)
  from "1.prems" have nl: "\<not> length s < i" and i: "i \<le> length s" by simp_all
  show ?case
  proof (cases "match_at r s i")
    case None
    show ?thesis
    proof (cases "j = i")
      case True
      with None show ?thesis by simp
    next
      case False
      with "1.prems"(1) have "Suc i \<le> j" by simp
      moreover from "1.prems"(3) None i
      have "\<forall>(st, en) \<in> set (finditer_from r s (Suc i)). (j < st \<or> en \<le> j) \<and> j \<noteq> st"
        by (simp add: finditer_from_None)
      ultimately show ?thesis
        using "1.IH"(1)[OF nl None _ "1.prems"(2)] by blast
    qed
  next
    case (Some e)
    let ?n = "if i < e then e else Suc i"
    from "1.prems"(3) Some i have
      h: "(j < i \<or> e \<le> j) \<and> j \<noteq> i"
      and t: "\<forall>(st, en) \<in> set (finditer_from r s ?n). (j < st \<or> en \<le> j) \<and> j \<noteq> st"
      by (simp_all add: finditer_from_Some)
    from h "1.prems"(1) have "?n \<le> j" by auto
    from "1.IH"(2)[OF nl Some this "1.prems"(2) t] show ?thesis .
  qed
qed

subsection \<open>IP anonymizer\<close>

lemma anonymize_loop_segments:
  "anonymize_loop h msg ms pos acc = acc @ concat (map (seg_out h) (segments msg ms pos))"
  by (induction ms arbitrary: pos acc) (auto simp: slice_def slice_from_def)

lemma take_drop_span: "a \<le> b \<Longrightarrow> take (b - a) (drop a xs) @ drop b xs = drop a xs"
proof -
  assume "a \<le> b"
  then have "drop b xs = drop (b - a) (drop a xs)" by simp
  then show ?thesis by (simp only: append_take_drop_id)
qed

lemma segments_text:
  "ordered_from pos ms n \<Longrightarrow> concat (map seg_text (segments msg ms pos)) = drop pos msg"
proof (induction ms arbitrary: pos)
  case Nil
  show ?case by simp
next
  case (Cons m ms)
  obtain st en where m: "m = (st, en)" by (cases m)
  from Cons.prems m have p: "pos \<le> st" "st \<le> en" "ordered_from en ms n" by simp_all
  have "concat (map seg_text (segments msg (m # ms) pos))
        = take (st - pos) (drop pos msg) @ take (en - st) (drop st msg) @ drop en msg"
    using Cons.IH[OF p(3)] m by simp
  also have "\<dots> = take (st - pos) (drop pos msg) @ drop st msg"
    by (simp only: take_drop_span[OF p(2)])
  also have "\<dots> = drop pos msg"
    by (rule take_drop_span[OF p(1)])
  finally show ?case .
qed

lemma segments_spans:
  "ordered_from pos ms (length msg) \<Longrightarrow> seg_spans pos (segments msg ms pos) = ms"
proof (induction ms arbitrary: pos)
  case Nil
  show ?case by simp
next
  case (Cons m ms)
  obtain st en where m: "m = (st, en)" by (cases m)
  from Cons.prems m have p: "pos \<le> st" "st \<le> en" "ordered_from en ms (length msg)" by simp_all
  from ordered_from_sorted[OF p(3)] have "en \<le> length msg"
    using p(3) by (cases ms) auto
  with p have "pos + length (take (st - pos) (drop pos msg)) = st"
    and "st + length (take (en - st) (drop st msg)) = en"
    by simp_all
  with Cons.IH[OF p(3)] m show ?case by simp
qed

lemma finditer_ordered: "ordered_from 0 (finditer IP_PATTERN msg) (length msg)"
  unfolding finditer_def by (rule finditer_from_ordered) simp

lemma finditer_span:
  assumes "(st, en) \<in> set (finditer IP_PATTERN msg)"
  shows "st < en \<and> en \<le> length msg \<and> match_at IP_PATTERN msg st = Some en
         \<and> (st = 0 \<or> \<not> boundary_char (msg ! (st - 1)))
         \<and> (en = length msg \<or> \<not> boundary_char (msg ! en))"
proof -
  from assms have "st \<le> length msg" and m: "match_at IP_PATTERN msg st = Some en"
    using finditer_from_spans[of st en IP_PATTERN msg 0] by (simp_all add: finditer_def)
  from match_at_IP[OF m \<open>st \<le> length msg\<close>] m show ?thesis by simp
qed

lemma finditer_leftmost:
  assumes "j \<le> length msg" and "\<forall>(st, en) \<in> set (finditer IP_PATTERN msg). j < st \<or> en \<le> j"
  shows "match_at IP_PATTERN msg j = None"
proof -
  have "\<forall>(st, en) \<in> set (finditer_from IP_PATTERN msg 0). (j < st \<or> en \<le> j) \<and> j \<noteq> st"
  proof (clarify, rule conjI)
    fix st en
    assume m: "(st, en) \<in> set (finditer_from IP_PATTERN msg 0)"
    with assms(2) show c: "j < st \<or> en \<le> j" by (auto simp: finditer_def)
    from m finditer_span[of st en msg] have "st < en" by (simp add: finditer_def)
    with c show "j \<noteq> st" by auto
  qed
  from finditer_from_leftmost[OF _ assms(1) this] show ?thesis by simp
qed

lemma anonymize_segments:
  "anonymize h msg = concat (map (seg_out h) (segments msg (finditer IP_PATTERN msg) 0))"
  by (simp add: anonymize_def anonymize_loop_segments)

lemma anonymize_no_match: "finditer IP_PATTERN msg = [] \<Longrightarrow> anonymize h msg = msg"
  by (simp add: anonymize_segments)

lemma anonymize_record:
  "lg ''message'' = Some m \<Longrightarrow>
   anonymize_ip_addresses h lg = Inr (lg(''message'' \<mapsto> PStr (anonymize h (py_str m))))"
  by (simp add: anonymize_ip_addresses_def getitem_def)

text \<open>
  C2. Every message is a sequence of pieces, plain text and hits, such that: the pieces
  in order make up the message; the hits are exactly the matches of the pattern, found
  from left to right; the anonymizer returns the pieces with each hit \<open>t\<close> replaced by
  \<^verbatim>\<open>IP(\<close>\<open>h t\<close>\<^verbatim>\<open>)\<close>, where \<open>h\<close> is the hash, a function of the text of the hit alone,
  and every plain piece as it is. Each match is not empty, is a first match of the pattern
  at its start, and has no word character, colon or dot right before or right after it;
  the matches do not overlap; no position outside the matches starts a match. A message
  without a match is returned unchanged, and on a record with a message the operation
  returns normally.
\<close>

theorem anonymizer_segments:
  "\<exists>segs. concat (map seg_text segs) = msg
      \<and> seg_spans 0 segs = finditer IP_PATTERN msg
      \<and> anonymize h msg = concat (map (seg_out h) segs)
      \<and> (\<forall>(st, en) \<in> set (finditer IP_PATTERN msg).
            st < en \<and> en \<le> length msg \<and> match_at IP_PATTERN msg st = Some en
            \<and> (st = 0 \<or> \<not> boundary_char (msg ! (st - 1)))
            \<and> (en = length msg \<or> \<not> boundary_char (msg ! en)))
      \<and> sorted_wrt (\<lambda>a b. snd a \<le> fst b) (finditer IP_PATTERN msg)
      \<and> (\<forall>j. j \<le> length msg \<and> (\<forall>(st, en) \<in> set (finditer IP_PATTERN msg). j < st \<or> en \<le> j)
              \<longrightarrow> match_at IP_PATTERN msg j = None)
      \<and> (finditer IP_PATTERN msg = [] \<longrightarrow> anonymize h msg = msg)
      \<and> (\<forall>lg. lg ''message'' = Some (PStr msg) \<longrightarrow>
            anonymize_ip_addresses h lg = Inr (lg(''message'' \<mapsto> PStr (anonymize h msg))))"
proof -
  let ?ms = "finditer IP_PATTERN msg"
  let ?segs = "segments msg ?ms 0"
  have 1: "concat (map seg_text ?segs) = msg"
    using segments_text[OF finditer_ordered, of msg msg] by simp
  have 2: "seg_spans 0 ?segs = ?ms"
    by (rule segments_spans[OF finditer_ordered])
  have 3: "anonymize h msg = concat (map (seg_out h) ?segs)"
    by (rule anonymize_segments)
  have 4: "\<forall>(st, en) \<in> set ?ms.
            st < en \<and> en \<le> length msg \<and> match_at IP_PATTERN msg st = Some en
            \<and> (st = 0 \<or> \<not> boundary_char (msg ! (st - 1)))
            \<and> (en = length msg \<or> \<not> boundary_char (msg ! en))"
    using finditer_span by blast
  have 5: "sorted_wrt (\<lambda>a b. snd a \<le> fst b) ?ms"
    using ordered_from_sorted[OF finditer_ordered] by blast
  have 6: "\<forall>j. j \<le> length msg \<and> (\<forall>(st, en) \<in> set ?ms. j < st \<or> en \<le> j)
              \<longrightarrow> match_at IP_PATTERN msg j = None"
    using finditer_leftmost by blast
  have 7: "?ms = [] \<longrightarrow> anonymize h msg = msg"
    using anonymize_no_match by blast
  have 8: "\<forall>lg. lg ''message'' = Some (PStr msg) \<longrightarrow>
            anonymize_ip_addresses h lg = Inr (lg(''message'' \<mapsto> PStr (anonymize h msg)))"
    using anonymize_record[of _ "PStr msg" h] by simp
  from 1 2 3 4 5 6 7 8 show ?thesis by blast
qed

lemma ip_message_matches: "finditer IP_PATTERN ip_message = [(5, 13), (17, 20), (25, 33)]"
  by code_simp

lemma ip_message_anonymized:
  "anonymize h ip_message =
     ''from IP('' @ str_int (h ''10.0.0.1'') @ '') to IP('' @ str_int (h ''::1'')
       @ '') via IP('' @ str_int (h ''10.0.0.1'') @ '')''"
  by (simp add: anonymize_def ip_message_matches slice_def slice_from_def) (simp add: ip_message_def)

text \<open>The same literal twice in one message gets the same token, whatever the hash.\<close>

theorem anonymizer_segments_witness:
  "\<forall>h. anonymize_ip_addresses h [''message'' \<mapsto> PStr ip_message]
        = Inr [''message'' \<mapsto> PStr (''from IP('' @ str_int (h ''10.0.0.1'') @ '') to IP(''
                 @ str_int (h ''::1'') @ '') via IP('' @ str_int (h ''10.0.0.1'') @ '')'')]"
proof
  fix h
  from anonymizer_segments[of ip_message h]
  have "\<forall>lg. lg ''message'' = Some (PStr ip_message) \<longrightarrow>
          anonymize_ip_addresses h lg = Inr (lg(''message'' \<mapsto> PStr (anonymize h ip_message)))"
    by blast
  then have "anonymize_ip_addresses h [''message'' \<mapsto> PStr ip_message]
      = Inr ([''message'' \<mapsto> PStr ip_message](''message'' \<mapsto> PStr (anonymize h ip_message)))"
    by simp
  then show "anonymize_ip_addresses h [''message'' \<mapsto> PStr ip_message]
        = Inr [''message'' \<mapsto> PStr (''from IP('' @ str_int (h ''10.0.0.1'') @ '') to IP(''
                 @ str_int (h ''::1'') @ '') via IP('' @ str_int (h ''10.0.0.1'') @ '')'')]"
    by (simp add: ip_message_anonymized)
qed

subsection \<open>Matches hold a dot or a colon\<close>

lemma in_set_sep: "list_all sep_item cs \<Longrightarrow> in_set cs c \<Longrightarrow> c = CHR ''.'' \<or> c = CHR '':''"
proof (induction cs)
  case Nil
  then show ?case by (simp add: in_set_def)
next
  case (Cons p cs)
  from Cons.prems(1) have p: "sep_item p" and cs: "list_all sep_item cs" by simp_all
  from Cons.prems(2) have "cmatch p c \<or> in_set cs c" by (simp add: in_set_def)
  then show ?case
  proof
    assume m: "cmatch p c"
    from p obtain d where d: "p = Ch d" "d = CHR ''.'' \<or> d = CHR '':''" by (cases p) auto
    from d(2) show ?thesis
    proof
      assume "d = CHR ''.''"
      with m d(1) have "cmatch (Ch CHR ''.'') c" by simp
      with cmatch_dot[of c] have "c = CHR ''.''" by blast
      then show ?thesis by simp
    next
      assume "d = CHR '':''"
      with m d(1) have "cmatch (Ch CHR '':'') c" by simp
      with cmatch_colon[of c] have "c = CHR '':''" by blast
      then show ?thesis by simp
    qed
  next
    assume "in_set cs c"
    from Cons.IH[OF cs this] show ?thesis .
  qed
qed

lemma rep_has_sep:
  assumes f: "\<And>j e. j \<le> n \<Longrightarrow> e \<in> set (f j) \<Longrightarrow> j \<le> e \<and> e \<le> n \<and> (\<exists>k. j \<le> k \<and> k < e \<and> P k)"
    and lo: "0 < lo" and i: "i \<le> n" and e: "e \<in> set (rep f lo hi i)"
  shows "\<exists>k. i \<le> k \<and> k < e \<and> P k"
proof (cases hi)
  case 0
  with lo e show ?thesis by simp
next
  case (Suc hi')
  with lo e obtain j where j: "j \<in> set (f i)" "e \<in> set (rep f (lo - 1) hi' j)"
    by auto
  from f[OF i j(1)] obtain k where k: "i \<le> k" "k < j" "P k" and jn: "j \<le> n"
    by blast
  have "j \<le> e \<and> e \<le> n" if "j \<le> n" "e \<in> set (f j)" for j e
    using f[OF that] by simp
  from rep_bounds[of n f j e "lo - 1" hi', OF this jn j(2)] have "j \<le> e"
    by simp
  with k show ?thesis by (intro exI[of _ k]) simp
qed

lemma rmatch_has_sep:
  "has_sep r \<Longrightarrow> i \<le> length s \<Longrightarrow> e \<in> set (rmatch r s i) \<Longrightarrow>
   \<exists>k. i \<le> k \<and> k < e \<and> (s ! k = CHR ''.'' \<or> s ! k = CHR '':'')"
proof (induction r arbitrary: i e)
  case (Sym cs)
  from Sym(3) have "e = Suc i" and "in_set cs (s ! i)"
    by (simp_all split: if_splits)
  with in_set_sep[of cs "s ! i"] Sym(1) show ?case
    by (intro exI[of _ i]) simp
next
  case (Seq a b)
  from Seq.prems(3) obtain j where j: "j \<in> set (rmatch a s i)" "e \<in> set (rmatch b s j)"
    by auto
  from rmatch_bounds[OF Seq.prems(2) j(1)] have ij: "i \<le> j" "j \<le> length s"
    by simp_all
  from rmatch_bounds[OF ij(2) j(2)] have je: "j \<le> e"
    by simp
  from Seq.prems(1) have "has_sep a \<or> has_sep b"
    by simp
  then show ?case
  proof
    assume "has_sep a"
    from Seq.IH(1)[OF this Seq.prems(2) j(1)] obtain k where
      "i \<le> k" "k < j" "s ! k = CHR ''.'' \<or> s ! k = CHR '':''" by blast
    with je show ?thesis by (intro exI[of _ k]) simp
  next
    assume "has_sep b"
    from Seq.IH(2)[OF this ij(2) j(2)] obtain k where
      "j \<le> k" "k < e" "s ! k = CHR ''.'' \<or> s ! k = CHR '':''" by blast
    with ij show ?thesis by (intro exI[of _ k]) simp
  qed
next
  case (Alt a b)
  from Alt.prems(1) have c: "has_sep a" "has_sep b"
    by simp_all
  from Alt.prems(3) have "e \<in> set (rmatch a s i) \<or> e \<in> set (rmatch b s i)"
    by simp
  then show ?case
    using Alt.IH(1)[OF c(1) Alt.prems(2)] Alt.IH(2)[OF c(2) Alt.prems(2)] by blast
next
  case (Rep a lo hi)
  from Rep.prems(1) have lo: "0 < lo" and ca: "has_sep a"
    by simp_all
  have f: "j \<le> e \<and> e \<le> length s \<and> (\<exists>k. j \<le> k \<and> k < e \<and> (s ! k = CHR ''.'' \<or> s ! k = CHR '':''))"
    if "j \<le> length s" "e \<in> set (rmatch a s j)" for j e
    using Rep.IH[OF ca that] rmatch_bounds[OF that] by simp
  from Rep.prems(3) have "e \<in> set (rep (\<lambda>j. rmatch a s j) lo
      (case hi of Some h \<Rightarrow> h | None \<Rightarrow> length s - i) i)"
    by simp
  from rep_has_sep[of "length s" "\<lambda>j. rmatch a s j" "\<lambda>k. s ! k = CHR ''.'' \<or> s ! k = CHR '':''",
      OF f lo Rep.prems(2) this]
  show ?case .
next
  case (NotBehind cs)
  then show ?case by simp
next
  case (NotAhead cs)
  then show ?case by simp
qed

lemma has_sep_IP_BODY: "has_sep IP_BODY"
  by code_simp

lemma no_sep_no_match:
  assumes "CHR ''.'' \<notin> set s" and "CHR '':'' \<notin> set s" and "i \<le> length s"
  shows "match_at IP_PATTERN s i = None"
proof (cases "match_at IP_PATTERN s i")
  case None
  then show ?thesis .
next
  case (Some e)
  from match_at_mem[OF Some] have "e \<in> set (rmatch IP_BODY s i)"
    by (auto simp: rmatch_IP_PATTERN split: if_splits)
  then have b: "e \<in> set (rmatch IP_BODY s i)" .
  from rmatch_has_sep[OF has_sep_IP_BODY assms(3) b]
  obtain k where k: "k < e" "s ! k = CHR ''.'' \<or> s ! k = CHR '':''"
    by blast
  from rmatch_bounds[OF assms(3) b] k(1) have "k < length s"
    by simp
  then have "s ! k \<in> set s"
    by (rule nth_mem)
  with k(2) assms(1,2) have False
    by auto
  then show ?thesis ..
qed

lemma finditer_from_no_match:
  "(\<forall>j \<le> length s. match_at r s j = None) \<Longrightarrow> finditer_from r s i = []"
proof (induction r s i rule: finditer_from.induct)
  case (1 r s i)
  show ?case
  proof (cases "length s < i")
    case True
    then show ?thesis by (simp add: finditer_from_past)
  next
    case False
    with "1.prems" have n: "match_at r s i = None" by simp
    from "1.IH"(1)[OF False n "1.prems"] False n show ?thesis
      by (simp add: finditer_from_None)
  qed
qed

lemma anonymize_no_sep:
  assumes "CHR ''.'' \<notin> set s" and "CHR '':'' \<notin> set s"
  shows "anonymize h s = s"
proof -
  have "\<forall>j \<le> length s. match_at IP_PATTERN s j = None"
    using no_sep_no_match[OF assms] by blast
  then have "finditer IP_PATTERN s = []"
    unfolding finditer_def by (rule finditer_from_no_match)
  then show ?thesis by (rule anonymize_no_match)
qed

lemma code_digit_char: "d < 10 \<Longrightarrow> code (digit_char d) = 48 + d"
  by (simp add: digit_char_def code_def)

lemma code_minus: "code CHR ''-'' = 45"
  by (simp add: code_def)

lemma str_nat_chars: "c \<in> set (str_nat n) \<Longrightarrow> 48 \<le> code c \<and> code c \<le> 57"
proof (induction n rule: str_nat.induct)
  case (1 n)
  show ?case
  proof (cases "n < 10")
    case True
    with "1.prems" have "c = digit_char n"
      by (subst (asm) str_nat.simps) simp
    with code_digit_char[OF True] True show ?thesis
      by simp
  next
    case False
    with "1.prems" have "c \<in> set (str_nat (n div 10)) \<or> c = digit_char (n mod 10)"
      by (subst (asm) str_nat.simps) auto
    then show ?thesis
    proof
      assume "c \<in> set (str_nat (n div 10))"
      from "1.IH"[OF False this] show ?thesis .
    next
      assume c: "c = digit_char (n mod 10)"
      have "n mod 10 < 10" by simp
      from code_digit_char[OF this] this c show ?thesis
        by simp
    qed
  qed
qed

text \<open>The string of an integer: digits, after a minus sign when it is negative.\<close>

lemma str_int_chars: "c \<in> set (str_int i) \<Longrightarrow> code c = 45 \<or> (48 \<le> code c \<and> code c \<le> 57)"
  using str_nat_chars[of c] code_minus by (auto simp: str_int_def split: if_splits)

lemma str_int_no_sep: "CHR ''.'' \<notin> set (str_int i) \<and> CHR '':'' \<notin> set (str_int i)"
  using str_int_chars[of "CHR ''.''" i] str_int_chars[of "CHR '':''" i] code_dot code_colon
  by auto

lemma anonymize_int: "anonymize h (py_str (PInt i)) = str_int i"
  using str_int_no_sep[of i] anonymize_no_sep[of "str_int i" h] by simp

subsection \<open>Lifecycle markers survive the anonymizer\<close>

lemma rep_numeral:
  "rep f lo (numeral k) i =
     concat (map (rep f (lo - 1) (pred_numeral k)) (f i)) @ (if lo = 0 then [i] else [])"
  by (simp add: numeral_eq_Suc)

lemma body_first:
  assumes "\<not> in_set HEXSET c" and "\<not> in_set DIGSET c" and "\<not> in_set [Ch CHR '':''] c"
    and "\<not> in_set [Ch CHR ''f''] c"
  shows "rmatch IP_BODY (c # rest) 0 = []"
  using assms
  by (simp add: IP_BODY_def IP_ALTERNATIVES_def h4c_def ch4_def h4_def lit_def hexd_def dig_def
      octet_def rep_numeral HEXSET_def DIGSET_def)

lemma body_second:
  assumes "in_set HEXSET c" and "\<not> in_set DIGSET c" and "\<not> in_set [Ch CHR '':''] c"
    and "\<not> in_set [Ch CHR ''f''] c"
    and "\<not> in_set HEXSET d" and "\<not> in_set [Ch CHR '':''] d"
  shows "rmatch IP_BODY (c # d # rest) 0 = []"
  using assms
  by (simp add: IP_BODY_def IP_ALTERNATIVES_def h4c_def ch4_def h4_def lit_def hexd_def dig_def
      octet_def rep_numeral HEXSET_def DIGSET_def)

lemma finditer_from_skip:
  "(\<forall>j < n. match_at r s j = None) \<Longrightarrow> n \<le> length s \<Longrightarrow>
   finditer_from r s 0 = finditer_from r s n"
proof (induction n)
  case 0
  show ?case by simp
next
  case (Suc n)
  from Suc.prems have "finditer_from r s 0 = finditer_from r s n"
    by (intro Suc.IH) simp_all
  also from Suc.prems have "\<dots> = finditer_from r s (Suc n)"
    by (intro finditer_from_None) simp_all
  finally show ?case .
qed

lemma segments_prefix:
  assumes "ordered_from n ms (length msg)" and "n \<le> length msg"
  shows "take n (concat (map (seg_out h) (segments msg ms 0))) = take n msg"
proof (cases ms)
  case Nil
  then show ?thesis by simp
next
  case (Cons m rest)
  obtain st en where m: "m = (st, en)" by (cases m)
  from assms(1) Cons m have "n \<le> st" by simp
  with assms(2) have l: "n \<le> length (take st msg)" by simp
  have "take n (concat (map (seg_out h) (segments msg ms 0)))
        = take n (take st msg @ concat (map (seg_out h) (tl (segments msg ms 0))))"
    using Cons m by simp
  also have "\<dots> = take n (take st msg)"
    using l by simp
  also have "\<dots> = take n msg"
    using \<open>n \<le> st\<close> by (simp add: min_absorb1)
  finally show ?thesis .
qed

lemma anonymize_prefix:
  assumes "\<forall>j < n. match_at IP_PATTERN s j = None" and "n \<le> length s"
  shows "take n (anonymize h s) = take n s"
proof -
  from finditer_from_skip[OF assms] have "finditer IP_PATTERN s = finditer_from IP_PATTERN s n"
    by (simp add: finditer_def)
  with finditer_from_ordered[OF assms(2), of IP_PATTERN]
  have "ordered_from n (finditer IP_PATTERN s) (length s)"
    by simp
  from segments_prefix[OF this assms(2)] show ?thesis
    by (simp add: anonymize_segments)
qed

lemma startswith_length: "startswith s p \<Longrightarrow> length p \<le> length s"
  by (metis startswith_def length_take min.cobounded1 min.commute)

lemma startswith_anonymize:
  assumes "startswith s p" and "\<forall>j < length p. match_at IP_PATTERN s j = None"
  shows "startswith (anonymize h s) p"
  using anonymize_prefix[OF assms(2) startswith_length[OF assms(1)], of h] assms(1)
  by (simp add: startswith_def)

lemma match_at_behind:
  "0 < j \<Longrightarrow> boundary_char (s ! (j - 1)) \<Longrightarrow> match_at IP_PATTERN s j = None"
  by (simp add: match_at_def rmatch_IP_PATTERN)

lemma match_at_body: "rmatch IP_BODY s j = [] \<Longrightarrow> match_at IP_PATTERN s j = None"
  by (simp add: match_at_def rmatch_IP_PATTERN)

lemma startswith_split: "startswith s p \<Longrightarrow> s = p @ drop (length p) s"
  by (metis startswith_def append_take_drop_id)

lemma word_START:
  "boundary_char CHR ''S''" "boundary_char CHR ''T''" "boundary_char CHR ''A''"
  "boundary_char CHR ''R''"
  by code_simp+

lemma word_END: "boundary_char CHR ''E''" "boundary_char CHR ''N''"
  by code_simp+

lemma word_REPORT: "boundary_char CHR ''P''" "boundary_char CHR ''O''"
  by code_simp+

lemma not_in_S:
  "\<not> in_set HEXSET CHR ''S''" "\<not> in_set DIGSET CHR ''S''" "\<not> in_set [Ch CHR '':''] CHR ''S''"
  "\<not> in_set [Ch CHR ''f''] CHR ''S''"
  by code_simp+

lemma not_in_R:
  "\<not> in_set HEXSET CHR ''R''" "\<not> in_set DIGSET CHR ''R''" "\<not> in_set [Ch CHR '':''] CHR ''R''"
  "\<not> in_set [Ch CHR ''f''] CHR ''R''"
  by code_simp+

lemma in_E:
  "in_set HEXSET CHR ''E''" "\<not> in_set DIGSET CHR ''E''" "\<not> in_set [Ch CHR '':''] CHR ''E''"
  "\<not> in_set [Ch CHR ''f''] CHR ''E''"
  by code_simp+

lemma not_in_N: "\<not> in_set HEXSET CHR ''N''" "\<not> in_set [Ch CHR '':''] CHR ''N''"
  by code_simp+

lemma less_5: "j < 5 \<Longrightarrow> j = 0 \<or> j = 1 \<or> j = 2 \<or> j = 3 \<or> j = (4::nat)"
  by arith

lemma less_3: "j < 3 \<Longrightarrow> j = 0 \<or> j = 1 \<or> j = (2::nat)"
  by arith

lemma less_6: "j < 6 \<Longrightarrow> j = 0 \<or> j = 1 \<or> j = 2 \<or> j = 3 \<or> j = 4 \<or> j = (5::nat)"
  by arith

lemma no_match_in_START:
  assumes "startswith s ''START''" and "j < 5"
  shows "match_at IP_PATTERN s j = None"
proof -
  from startswith_split[OF assms(1)] obtain rest where s: "s = ''START'' @ rest"
    by simp
  have 0: "match_at IP_PATTERN s 0 = None"
    unfolding s using body_first[OF not_in_S] by (intro match_at_body) simp
  have n: "match_at IP_PATTERN s j = None" if "0 < j" "boundary_char (s ! (j - 1))" for j
    using that by (rule match_at_behind)
  from less_5[OF assms(2)] 0 n[of 1] n[of 2] n[of 3] n[of 4] show ?thesis
    by (auto simp: s word_START)
qed

lemma no_match_in_END:
  assumes "startswith s ''END''" and "j < 3"
  shows "match_at IP_PATTERN s j = None"
proof -
  from startswith_split[OF assms(1)] obtain rest where s: "s = ''END'' @ rest"
    by simp
  have 0: "match_at IP_PATTERN s 0 = None"
    unfolding s using body_second[OF in_E not_in_N] by (intro match_at_body) simp
  have n: "match_at IP_PATTERN s j = None" if "0 < j" "boundary_char (s ! (j - 1))" for j
    using that by (rule match_at_behind)
  from less_3[OF assms(2)] 0 n[of 1] n[of 2] show ?thesis
    by (auto simp: s word_END)
qed

lemma no_match_in_REPORT:
  assumes "startswith s ''REPORT''" and "j < 6"
  shows "match_at IP_PATTERN s j = None"
proof -
  from startswith_split[OF assms(1)] obtain rest where s: "s = ''REPORT'' @ rest"
    by simp
  have 0: "match_at IP_PATTERN s 0 = None"
    unfolding s using body_first[OF not_in_R] by (intro match_at_body) simp
  have n: "match_at IP_PATTERN s j = None" if "0 < j" "boundary_char (s ! (j - 1))" for j
    using that by (rule match_at_behind)
  from less_6[OF assms(2)] 0 n[of 1] n[of 2] n[of 3] n[of 4] n[of 5] show ?thesis
    by (auto simp: s word_START word_END word_REPORT)
qed

lemma lifecycle_marker_kept:
  assumes "lifecycle_marker m"
  shows "lifecycle_marker (anonymize h m)"
proof -
  from assms consider "startswith m ''START''" | "startswith m ''END''" | "startswith m ''REPORT''"
    by (auto simp: lifecycle_marker_def)
  then show ?thesis
  proof cases
    case 1
    from startswith_anonymize[OF 1] no_match_in_START[OF 1] show ?thesis
      by (simp add: lifecycle_marker_def)
  next
    case 2
    from startswith_anonymize[OF 2] no_match_in_END[OF 2] show ?thesis
      by (simp add: lifecycle_marker_def)
  next
    case 3
    from startswith_anonymize[OF 3] no_match_in_REPORT[OF 3] show ?thesis
      by (simp add: lifecycle_marker_def)
  qed
qed

subsection \<open>One record through the steps\<close>

lemma add_timestamp_cases:
  "add_timestamp lg =
     (if lg ''@timestamp'' \<noteq> None then Inr lg
      else case lg ''timestamp'' of
             None \<Rightarrow> Inl KeyError
           | Some t \<Rightarrow> Inr ((lg(''@timestamp'' \<mapsto> PStr (py_str t)))(''timestamp'' := None)))"
  by (simp add: add_timestamp_def getitem_def delitem_def split: option.splits)

lemma add_timestamp_keeps:
  assumes "add_timestamp lg = Inr lg1"
  shows "lg1 ''message'' = lg ''message''" and "lg1 ''id'' = lg ''id''"
  using assms by (auto simp: add_timestamp_cases split: if_splits option.splits)

lemma add_timestamp_error: "add_timestamp lg = Inl e \<Longrightarrow> e = KeyError"
  by (auto simp: add_timestamp_cases split: if_splits option.splits)

lemma parse_cloudwatch_log_Inl:
  "add_timestamp lg = Inl e \<Longrightarrow> parse_cloudwatch_log pf lg ad = Inl e"
  by (simp add: parse_cloudwatch_log_def)

lemma parse_cloudwatch_log_no_message:
  "add_timestamp lg = Inr lg1 \<Longrightarrow> lg1 ''message'' = None \<Longrightarrow>
   parse_cloudwatch_log pf lg ad = Inl KeyError"
  by (simp add: parse_cloudwatch_log_def anonymize_ip_addresses_def getitem_def)

lemma parse_cloudwatch_log_steps:
  assumes "add_timestamp lg = Inr lg1" and "lg1 ''message'' = Some m"
    and "ad ''service'' = Some svc" and "py_in LAMBDA_LOG_GROUP svc = Inr b"
  shows "parse_cloudwatch_log pf lg ad =
     (if b
      then if lifecycle_marker (anonymize (py_hash pf) (py_str m))
           then Inr (False, lg1(''message'' \<mapsto> PStr (anonymize (py_hash pf) (py_str m))))
           else bind (extract_lambda_log_message
                        (lg1(''message'' \<mapsto> PStr (anonymize (py_hash pf) (py_str m)))))
                  (\<lambda>lg3. finish_log pf lg3 ad)
      else finish_log pf (lg1(''message'' \<mapsto> PStr (anonymize (py_hash pf) (py_str m)))) ad)"
  using assms
  by (simp add: parse_cloudwatch_log_def anonymize_record getitem_def is_valid_log_def
      lifecycle_marker_def)

lemma extract_keeps_id:
  assumes "lg ''message'' = Some m"
  shows "\<exists>lg3. extract_lambda_log_message lg = Inr lg3 \<and> lg3 ''id'' = lg ''id''"
  by (simp add: extract_unfold[of lg m, OF assms] Let_def split: option.splits)

lemma finish_log_no_id: "lg ''id'' = None \<Longrightarrow> finish_log pf lg ad = Inl KeyError"
  by (simp add: finish_log_def delitem_def)

lemma finish_log_json_off:
  "lg ''id'' \<noteq> None \<Longrightarrow> \<not> json_enabled pf \<Longrightarrow>
   finish_log pf lg ad = Inr (True, (lg(''id'' := None)) ++ ad)"
  by (auto simp: finish_log_def delitem_def parse_to_json_off)

lemma noise_not_emitted:
  assumes "ad ''service'' = Some svc" and "py_in LAMBDA_LOG_GROUP svc = Inr True"
    and "lg ''message'' = Some (PStr m)" and "lifecycle_marker m"
  shows "parse_cloudwatch_log pf lg ad = Inl KeyError
         \<or> (\<exists>lg'. parse_cloudwatch_log pf lg ad = Inr (False, lg'))"
proof (cases "add_timestamp lg")
  case (Inl e)
  with add_timestamp_error[OF Inl] show ?thesis
    by (simp add: parse_cloudwatch_log_Inl)
next
  case (Inr lg1)
  from add_timestamp_keeps(1)[OF Inr] assms(3) have m: "lg1 ''message'' = Some (PStr m)"
    by simp
  from lifecycle_marker_kept[OF assms(4), of "py_hash pf"]
  show ?thesis
    by (simp add: parse_cloudwatch_log_steps[of lg lg1 "PStr m" ad svc True pf, OF Inr m assms(1,2)])
qed

lemma missing_id_KeyError:
  assumes "lg ''id'' = None" and "ad ''service'' = Some svc"
    and "py_in LAMBDA_LOG_GROUP svc = Inr b"
    and "b \<longrightarrow> (\<forall>m. lg ''message'' = Some m \<longrightarrow>
                  \<not> lifecycle_marker (anonymize (py_hash pf) (py_str m)))"
  shows "parse_cloudwatch_log pf lg ad = Inl KeyError"
proof (cases "add_timestamp lg")
  case (Inl e)
  with add_timestamp_error[OF Inl] show ?thesis
    by (simp add: parse_cloudwatch_log_Inl)
next
  case (Inr lg1)
  note k = add_timestamp_keeps[OF Inr]
  show ?thesis
  proof (cases "lg1 ''message''")
    case None
    from parse_cloudwatch_log_no_message[OF Inr None] show ?thesis .
  next
    case (Some m)
    let ?lg2 = "lg1(''message'' \<mapsto> PStr (anonymize (py_hash pf) (py_str m)))"
    have id2: "?lg2 ''id'' = None"
      using k(2) assms(1) by simp
    have "?lg2 ''message'' = Some (PStr (anonymize (py_hash pf) (py_str m)))"
      by simp
    from extract_keeps_id[of ?lg2 "PStr (anonymize (py_hash pf) (py_str m))", OF this] id2
    obtain lg3 where
      lg3: "extract_lambda_log_message ?lg2 = Inr lg3" "lg3 ''id'' = None"
      by auto
    from Some k(1) assms(4) have "b \<longrightarrow> \<not> lifecycle_marker (anonymize (py_hash pf) (py_str m))"
      by simp
    then show ?thesis
      by (simp add: parse_cloudwatch_log_steps[of lg lg1 m ad svc b pf, OF Inr Some assms(2,3)] lg3
          finish_log_no_id[of ?lg2, OF id2] finish_log_no_id[of lg3, OF lg3(2)])
  qed
qed

subsection \<open>The loop of the handler\<close>

lemma outcome_Inr_dict:
  "outcome pf ad ev = Inr r \<Longrightarrow> \<exists>kvs. ev = PDict kvs \<and> parse_cloudwatch_log pf (map_of kvs) ad = Inr r"
  by (cases ev) simp_all

lemma send_logs_step:
  "send_logs pf ad (ev # evs) calls =
     (case outcome pf ad ev of
        Inl e \<Rightarrow> (Some e, calls)
      | Inr (keep, lg) \<Rightarrow> send_logs pf ad evs (if keep then calls @ [Add lg] else calls))"
  by (cases ev) simp_all

lemma send_logs_Nil: "send_logs pf ad [] calls = (None, calls)"
  by simp

declare send_logs.simps [simp del]

lemma emitted_Cons:
  "emitted pf ad (ev # evs) =
     (case outcome pf ad ev of Inr (True, lg) \<Rightarrow> [lg] | _ \<Rightarrow> []) @ emitted pf ad evs"
  by (simp add: emitted_def)

lemma send_logs_ok:
  "\<forall>ev \<in> set evs. \<exists>r. outcome pf ad ev = Inr r \<Longrightarrow>
   send_logs pf ad evs calls = (None, calls @ map Add (emitted pf ad evs))"
proof (induction evs arbitrary: calls)
  case Nil
  show ?case by (simp add: emitted_def send_logs_Nil)
next
  case (Cons ev evs)
  from Cons.prems obtain keep lg where r: "outcome pf ad ev = Inr (keep, lg)"
    by fastforce
  from Cons.prems have "\<forall>ev \<in> set evs. \<exists>r. outcome pf ad ev = Inr r"
    by simp
  from Cons.IH[OF this] r show ?case
    by (cases keep) (simp_all add: send_logs_step emitted_Cons)
qed

lemma send_logs_no_flush:
  "Flush \<notin> set calls \<Longrightarrow> send_logs pf ad evs calls = (r, calls') \<Longrightarrow> Flush \<notin> set calls'"
proof (induction evs arbitrary: calls)
  case Nil
  then show ?case by (simp add: send_logs_Nil)
next
  case (Cons ev evs)
  show ?case
  proof (cases "outcome pf ad ev")
    case (Inl e)
    with Cons.prems show ?thesis by (simp add: send_logs_step)
  next
    case (Inr p)
    obtain keep lg where p: "p = (keep, lg)" by (cases p)
    let ?c = "if keep then calls @ [Add lg] else calls"
    from Cons.prems(1) have f: "Flush \<notin> set ?c" by simp
    from Cons.prems(2) Inr p have "send_logs pf ad evs ?c = (r, calls')"
      by (simp add: send_logs_step)
    from Cons.IH[OF f this] show ?thesis .
  qed
qed

lemma send_logs_first_error:
  "\<forall>ev \<in> set pre. \<exists>r. outcome pf ad ev = Inr r \<Longrightarrow> outcome pf ad ev = Inl e \<Longrightarrow>
   send_logs pf ad (pre @ ev # post) calls = (Some e, calls @ map Add (emitted pf ad pre))"
proof (induction pre arbitrary: calls)
  case Nil
  then show ?case by (simp add: send_logs_step emitted_def)
next
  case (Cons p pre)
  from Cons.prems(1) obtain keep lg where r: "outcome pf ad p = Inr (keep, lg)"
    by fastforce
  from Cons.prems(1) have "\<forall>ev \<in> set pre. \<exists>r. outcome pf ad ev = Inr r"
    by simp
  from Cons.IH[OF this Cons.prems(2)] r show ?case
    by (cases keep) (simp_all add: send_logs_step emitted_Cons)
qed

lemma send_logs_some_error:
  "\<exists>ev \<in> set evs. \<exists>e. outcome pf ad ev = Inl e \<Longrightarrow> \<exists>e calls'. send_logs pf ad evs calls = (Some e, calls')"
proof (induction evs arbitrary: calls)
  case Nil
  then show ?case by simp
next
  case (Cons ev evs)
  show ?case
  proof (cases "outcome pf ad ev")
    case (Inl e)
    then show ?thesis by (simp add: send_logs_step)
  next
    case (Inr p)
    obtain keep lg where p: "p = (keep, lg)" by (cases p)
    from Cons.prems Inr have "\<exists>ev \<in> set evs. \<exists>e. outcome pf ad ev = Inl e"
      by auto
    from Cons.IH[OF this, of "if keep then calls @ [Add lg] else calls"] Inr p show ?thesis
      by (simp add: send_logs_step)
  qed
qed

lemma send_logs_adds_from:
  "send_logs pf ad evs calls = (r, calls') \<Longrightarrow> Add lg' \<in> set calls' \<Longrightarrow>
   Add lg' \<in> set calls
   \<or> (\<exists>kvs. PDict kvs \<in> set evs \<and> parse_cloudwatch_log pf (map_of kvs) ad = Inr (True, lg'))"
proof (induction evs arbitrary: calls)
  case Nil
  then show ?case by (simp add: send_logs_Nil)
next
  case (Cons ev evs)
  show ?case
  proof (cases "outcome pf ad ev")
    case (Inl e)
    with Cons.prems show ?thesis by (simp add: send_logs_step)
  next
    case (Inr p)
    obtain keep lg where p: "p = (keep, lg)" by (cases p)
    let ?c = "if keep then calls @ [Add lg] else calls"
    from Cons.prems(1) Inr p have "send_logs pf ad evs ?c = (r, calls')"
      by (simp add: send_logs_step)
    from Cons.IH[OF this Cons.prems(2)] have
      "Add lg' \<in> set ?c
       \<or> (\<exists>kvs. PDict kvs \<in> set evs \<and> parse_cloudwatch_log pf (map_of kvs) ad = Inr (True, lg'))" .
    moreover have "Add lg' \<in> set calls \<or> (keep \<and> lg' = lg)" if "Add lg' \<in> set ?c"
      using that by (auto split: if_splits)
    moreover from outcome_Inr_dict[OF Inr] p obtain kvs where
      "ev = PDict kvs" "parse_cloudwatch_log pf (map_of kvs) ad = Inr (keep, lg)"
      by auto
    ultimately show ?thesis by auto
  qed
qed

lemma lambda_handler_unfold:
  assumes "extract_aws_logs_data pf event = Inr doc" and "get_additional_logs_data pf doc = Inr ad"
    and "bind (subscript doc ''logEvents'') py_iter = Inr evs"
  shows "lambda_handler pf event =
     (case send_logs pf ad evs [] of
        (Some e, calls) \<Rightarrow> (Some e, calls)
      | (None, calls) \<Rightarrow> (None, calls @ [Flush]))"
  using assms by (simp add: lambda_handler_def)

lemma startswith_hd: "startswith s (c # p) \<Longrightarrow> c \<in> set s"
  by (cases s) (simp_all add: startswith_def)

lemma extract_plain:
  assumes "lg ''message'' = Some (PStr s)" and "CHR ''['' \<notin> set s" and "TAB \<notin> set s"
  shows "extract_lambda_log_message lg = Inr lg"
proof -
  from assms(2) have l: "spec_level s = None"
    by (simp add: spec_level_def)
  then have r: "spec_remainder s = s"
    by (simp add: spec_remainder_def)
  from assms(3) have p: "split_on TAB s = [s]"
    by (rule split_on_plain)
  from extract_unfold[of lg "PStr s", OF assms(1)] show ?thesis
    by (simp add: l r p)
qed

lemma add_timestamp_ok:
  "lg ''@timestamp'' \<noteq> None \<or> lg ''timestamp'' \<noteq> None \<Longrightarrow> \<exists>lg1. add_timestamp lg = Inr lg1"
  by (cases "lg ''@timestamp''"; cases "lg ''timestamp''") (simp_all add: add_timestamp_cases)

lemma plain_emitted:
  assumes m: "lg ''message'' = Some v"
    and chars: "CHR ''.'' \<notin> set (py_str v)" "CHR '':'' \<notin> set (py_str v)"
      "CHR ''['' \<notin> set (py_str v)" "TAB \<notin> set (py_str v)"
    and valid: "\<not> lifecycle_marker (py_str v)"
    and ident: "lg ''id'' \<noteq> None"
    and ts: "lg ''@timestamp'' \<noteq> None \<or> lg ''timestamp'' \<noteq> None"
    and svc: "ad ''service'' = Some svc" "py_in LAMBDA_LOG_GROUP svc = Inr b"
    and off: "\<not> json_enabled pf"
  shows "\<exists>lg1. add_timestamp lg = Inr lg1
           \<and> parse_cloudwatch_log pf lg ad
               = Inr (True, ((lg1(''message'' \<mapsto> PStr (py_str v)))(''id'' := None)) ++ ad)"
proof -
  from add_timestamp_ok[OF ts] obtain lg1 where a: "add_timestamp lg = Inr lg1"
    by blast
  from add_timestamp_keeps[OF a] m ident have m1: "lg1 ''message'' = Some v" and i1: "lg1 ''id'' \<noteq> None"
    by simp_all
  let ?lg2 = "lg1(''message'' \<mapsto> PStr (py_str v))"
  have an: "anonymize (py_hash pf) (py_str v) = py_str v"
    using chars(1,2) by (rule anonymize_no_sep)
  have e: "extract_lambda_log_message ?lg2 = Inr ?lg2"
    using chars(3,4) by (intro extract_plain[of ?lg2 "py_str v"]) simp_all
  have i2: "?lg2 ''id'' \<noteq> None"
    using i1 by simp
  have f: "finish_log pf ?lg2 ad = Inr (True, (?lg2(''id'' := None)) ++ ad)"
    using i2 off by (rule finish_log_json_off)
  have "parse_cloudwatch_log pf lg ad = Inr (True, (?lg2(''id'' := None)) ++ ad)"
    using valid by (simp add: parse_cloudwatch_log_steps[of lg lg1 v ad svc b pf, OF a m1 svc] an e f)
  with a show ?thesis by blast
qed

lemma code_bracket: "code CHR ''['' = 91"
  by (simp add: code_def)

lemma code_TAB: "code TAB = 9"
  by (simp add: code_def TAB_def)

lemma code_SER: "code CHR ''S'' = 83" "code CHR ''E'' = 69" "code CHR ''R'' = 82"
  by (simp_all add: code_def)

lemma str_int_plain:
  "CHR ''['' \<notin> set (str_int i)" "TAB \<notin> set (str_int i)" "\<not> lifecycle_marker (str_int i)"
proof -
  show "CHR ''['' \<notin> set (str_int i)"
    using str_int_chars[of "CHR ''[''" i] code_bracket by auto
  show "TAB \<notin> set (str_int i)"
    using str_int_chars[of TAB i] code_TAB by auto
  have "CHR ''S'' \<notin> set (str_int i)" "CHR ''E'' \<notin> set (str_int i)" "CHR ''R'' \<notin> set (str_int i)"
    using str_int_chars[of "CHR ''S''" i] str_int_chars[of "CHR ''E''" i]
      str_int_chars[of "CHR ''R''" i] code_SER by auto
  then show "\<not> lifecycle_marker (str_int i)"
    using startswith_hd[of "str_int i"] by (auto simp: lifecycle_marker_def)
qed

text \<open>
  C10. The anonymizer raises \<open>KeyError\<close> on a record without a message; otherwise it
  returns the record with \<^verbatim>\<open>message\<close> set to the anonymized string of its value, so
  the message of every record it returns is a string. A message that is a number becomes
  the decimal text of the number: no pattern matches in it. Such a record, with an
  \<^verbatim>\<open>id\<close> and a timestamp, from either kind of log group, with JSON handling off and no
  \<^verbatim>\<open>message\<close> in the metadata, is emitted with that text as its message.
\<close>

theorem message_is_string:
  "(lg ''message'' = None \<longrightarrow> anonymize_ip_addresses h lg = Inl KeyError)
   \<and> (\<forall>v. lg ''message'' = Some v \<longrightarrow>
         anonymize_ip_addresses h lg = Inr (lg(''message'' \<mapsto> PStr (anonymize h (py_str v)))))
   \<and> (\<forall>lg'. anonymize_ip_addresses h lg = Inr lg' \<longrightarrow> (\<exists>s. lg' ''message'' = Some (PStr s)))
   \<and> (\<forall>i. lg ''message'' = Some (PInt i) \<longrightarrow>
         anonymize_ip_addresses h lg = Inr (lg(''message'' \<mapsto> PStr (str_int i))))
   \<and> (\<forall>i pf ad svc b.
         lg ''message'' = Some (PInt i) \<and> lg ''id'' \<noteq> None
         \<and> (lg ''@timestamp'' \<noteq> None \<or> lg ''timestamp'' \<noteq> None)
         \<and> ad ''service'' = Some svc \<and> py_in LAMBDA_LOG_GROUP svc = Inr b
         \<and> ad ''message'' = None \<and> \<not> json_enabled pf \<longrightarrow>
         (\<exists>lg'. parse_cloudwatch_log pf lg ad = Inr (True, lg')
                \<and> lg' ''message'' = Some (PStr (str_int i))))"
proof (intro conjI allI impI)
  assume "lg ''message'' = None"
  then show "anonymize_ip_addresses h lg = Inl KeyError"
    by (simp add: anonymize_ip_addresses_def getitem_def)
next
  fix v assume "lg ''message'' = Some v"
  then show "anonymize_ip_addresses h lg = Inr (lg(''message'' \<mapsto> PStr (anonymize h (py_str v))))"
    by (rule anonymize_record[of lg v h])
next
  fix lg' assume "anonymize_ip_addresses h lg = Inr lg'"
  then show "\<exists>s. lg' ''message'' = Some (PStr s)"
    by (auto simp: anonymize_ip_addresses_def getitem_def split: option.splits)
next
  fix i assume "lg ''message'' = Some (PInt i)"
  from anonymize_record[of lg "PInt i" h, OF this] anonymize_int[of h i]
  show "anonymize_ip_addresses h lg = Inr (lg(''message'' \<mapsto> PStr (str_int i)))"
    by simp
next
  fix i pf ad svc b
  assume a: "lg ''message'' = Some (PInt i) \<and> lg ''id'' \<noteq> None
         \<and> (lg ''@timestamp'' \<noteq> None \<or> lg ''timestamp'' \<noteq> None)
         \<and> ad ''service'' = Some svc \<and> py_in LAMBDA_LOG_GROUP svc = Inr b
         \<and> ad ''message'' = None \<and> \<not> json_enabled pf"
  have s: "py_str (PInt i) = str_int i"
    by simp
  from a have "\<exists>lg1. add_timestamp lg = Inr lg1
           \<and> parse_cloudwatch_log pf lg ad
               = Inr (True, ((lg1(''message'' \<mapsto> PStr (py_str (PInt i))))(''id'' := None)) ++ ad)"
    using str_int_no_sep[of i] str_int_plain[of i]
    by (intro plain_emitted[of lg "PInt i" ad svc b pf]) (simp_all only: s, simp_all)
  then obtain lg1 where
    p: "parse_cloudwatch_log pf lg ad
       = Inr (True, ((lg1(''message'' \<mapsto> PStr (str_int i)))(''id'' := None)) ++ ad)"
    by auto
  from a have
    q: "(((lg1(''message'' \<mapsto> PStr (str_int i)))(''id'' := None)) ++ ad) ''message''
          = Some (PStr (str_int i))"
    by (simp add: map_add_def)
  show "\<exists>lg'. parse_cloudwatch_log pf lg ad = Inr (True, lg')
                \<and> lg' ''message'' = Some (PStr (str_int i))"
    by (rule exI[of _ "((lg1(''message'' \<mapsto> PStr (str_int i)))(''id'' := None)) ++ ad"])
       (intro conjI, rule p, rule q)
qed

lemma str_int_42: "str_int 42 = ''42''"
  by code_simp

lemma lambda_group: "py_in LAMBDA_LOG_GROUP (PStr ''/aws/lambda/my-function'') = Inr True"
  by code_simp

lemma other_group: "py_in LAMBDA_LOG_GROUP (PStr ''/ecs/app'') = Inr False"
  by code_simp

lemma example_json_off: "\<not> json_enabled (platform_for Map.empty doc)"
  by (simp add: json_enabled_def platform_for_def)

text \<open>
  The record with the number 42 as message is emitted with the message \<^verbatim>\<open>42\<close>.
\<close>

theorem message_is_string_witness:
  "\<exists>lg'. parse_cloudwatch_log example_platform number_record example_metadata = Inr (True, lg')
      \<and> lg' ''message'' = Some (PStr ''42'')"
proof -
  have "number_record ''message'' = Some (PInt 42) \<and> number_record ''id'' \<noteq> None
         \<and> (number_record ''@timestamp'' \<noteq> None \<or> number_record ''timestamp'' \<noteq> None)
         \<and> example_metadata ''service'' = Some (PStr ''/aws/lambda/my-function'')
         \<and> py_in LAMBDA_LOG_GROUP (PStr ''/aws/lambda/my-function'') = Inr True
         \<and> example_metadata ''message'' = None \<and> \<not> json_enabled example_platform"
    using lambda_group example_json_off[of example_doc]
    by (intro conjI) (simp_all add: number_record_def example_metadata_def example_platform_def)
  with message_is_string[of number_record "\<lambda>s. 0"]
  have "\<exists>lg'. parse_cloudwatch_log example_platform number_record example_metadata = Inr (True, lg')
      \<and> lg' ''message'' = Some (PStr (str_int 42))"
    by blast
  then show ?thesis
    by (simp only: str_int_42)
qed

lemma is_marker_START: "lifecycle_marker ''START RequestId: req-123''"
  by code_simp

lemma not_marker_hello: "\<not> lifecycle_marker ''hello''"
  by code_simp

lemma not_marker_first: "\<not> lifecycle_marker ''first''"
  by code_simp

lemma not_marker_second: "\<not> lifecycle_marker ''second''"
  by code_simp

text \<open>
  C7. In a batch whose \<^verbatim>\<open>service\<close> value holds the marker of the runtime log group, a
  record whose message starts with START, END or REPORT is never emitted: processing it
  raises \<open>KeyError\<close> (it has no timestamp) or returns false. Every record the handler
  adds to the sink comes from an entry of the event list that
  \<^verbatim>\<open>_parse_cloudwatch_log\<close> returned true for and whose message does not start with a
  lifecycle marker.
\<close>

theorem noise_dropped:
  assumes "ad ''service'' = Some svc" and "py_in LAMBDA_LOG_GROUP svc = Inr True"
  shows "(\<forall>lg m. lg ''message'' = Some (PStr m) \<and> lifecycle_marker m \<longrightarrow>
            parse_cloudwatch_log pf lg ad = Inl KeyError
            \<or> (\<exists>lg'. parse_cloudwatch_log pf lg ad = Inr (False, lg')))
       \<and> (\<forall>event doc evs r calls lg'.
            extract_aws_logs_data pf event = Inr doc \<and> get_additional_logs_data pf doc = Inr ad
            \<and> bind (subscript doc ''logEvents'') py_iter = Inr evs
            \<and> lambda_handler pf event = (r, calls) \<and> Add lg' \<in> set calls \<longrightarrow>
            (\<exists>kvs. PDict kvs \<in> set evs
                  \<and> parse_cloudwatch_log pf (map_of kvs) ad = Inr (True, lg')
                  \<and> (\<forall>m. map_of kvs ''message'' = Some (PStr m) \<longrightarrow> \<not> lifecycle_marker m)))"
proof (intro conjI allI impI)
  fix lg m
  assume "lg ''message'' = Some (PStr m) \<and> lifecycle_marker m"
  then show "parse_cloudwatch_log pf lg ad = Inl KeyError
            \<or> (\<exists>lg'. parse_cloudwatch_log pf lg ad = Inr (False, lg'))"
    using noise_not_emitted[of ad svc lg m pf] assms by simp
next
  fix event doc evs r calls lg'
  assume a: "extract_aws_logs_data pf event = Inr doc \<and> get_additional_logs_data pf doc = Inr ad
            \<and> bind (subscript doc ''logEvents'') py_iter = Inr evs
            \<and> lambda_handler pf event = (r, calls) \<and> Add lg' \<in> set calls"
  then have "extract_aws_logs_data pf event = Inr doc" and "get_additional_logs_data pf doc = Inr ad"
    and "bind (subscript doc ''logEvents'') py_iter = Inr evs"
    by simp_all
  then have u: "lambda_handler pf event =
     (case send_logs pf ad evs [] of
        (Some e, calls) \<Rightarrow> (Some e, calls)
      | (None, calls) \<Rightarrow> (None, calls @ [Flush]))"
    by (rule lambda_handler_unfold)
  obtain r0 c0 where s: "send_logs pf ad evs [] = (r0, c0)"
    by (cases "send_logs pf ad evs []")
  from u s a have "calls = c0 \<or> calls = c0 @ [Flush]"
    by (cases r0) auto
  with a have "Add lg' \<in> set c0"
    by auto
  from send_logs_adds_from[OF s this] obtain kvs where
    k: "PDict kvs \<in> set evs" "parse_cloudwatch_log pf (map_of kvs) ad = Inr (True, lg')"
    by auto
  have "\<not> lifecycle_marker m" if "map_of kvs ''message'' = Some (PStr m)" for m
  proof
    assume "lifecycle_marker m"
    from noise_not_emitted[of ad svc "map_of kvs" m pf, OF assms that this] k(2)
    show False by auto
  qed
  with k show "\<exists>kvs. PDict kvs \<in> set evs
                  \<and> parse_cloudwatch_log pf (map_of kvs) ad = Inr (True, lg')
                  \<and> (\<forall>m. map_of kvs ''message'' = Some (PStr m) \<longrightarrow> \<not> lifecycle_marker m)"
    by (intro exI[of _ kvs]) simp
qed

text \<open>
  The record with the message \<^verbatim>\<open>START RequestId: req-123\<close> is not emitted.
\<close>

theorem noise_dropped_witness:
  "\<forall>lg'. parse_cloudwatch_log example_platform noise_record example_metadata \<noteq> Inr (True, lg')"
proof -
  have s: "example_metadata ''service'' = Some (PStr ''/aws/lambda/my-function'')"
    by (simp add: example_metadata_def)
  have "noise_record ''message'' = Some (PStr ''START RequestId: req-123'')
        \<and> lifecycle_marker ''START RequestId: req-123''"
    by (simp add: noise_record_def is_marker_START)
  with noise_dropped[of example_metadata "PStr ''/aws/lambda/my-function''" example_platform,
      OF s lambda_group]
  have "parse_cloudwatch_log example_platform noise_record example_metadata = Inl KeyError
        \<or> (\<exists>lg'. parse_cloudwatch_log example_platform noise_record example_metadata = Inr (False, lg'))"
    by blast
  then show ?thesis by auto
qed

lemma noise_dropped_ok:
  assumes "ad ''service'' = Some svc" and "py_in LAMBDA_LOG_GROUP svc = Inr True"
    and "lg ''message'' = Some (PStr m)" and "lifecycle_marker m"
    and "lg ''@timestamp'' \<noteq> None \<or> lg ''timestamp'' \<noteq> None"
  shows "\<exists>lg'. parse_cloudwatch_log pf lg ad = Inr (False, lg')"
proof -
  from add_timestamp_ok[OF assms(5)] obtain lg1 where a: "add_timestamp lg = Inr lg1"
    by blast
  from add_timestamp_keeps(1)[OF a] assms(3) have m: "lg1 ''message'' = Some (PStr m)"
    by simp
  from lifecycle_marker_kept[OF assms(4), of "py_hash pf"]
  show ?thesis
    by (simp add: parse_cloudwatch_log_steps[of lg lg1 "PStr m" ad svc True pf, OF a m assms(1,2)])
qed

lemma reaches_id_removal:
  assumes "lg ''id'' = None" and "ad ''service'' = Some svc"
    and "py_in LAMBDA_LOG_GROUP svc = Inr b"
    and "b \<longrightarrow> (\<forall>m. lg ''message'' = Some m \<longrightarrow>
                  \<not> lifecycle_marker (anonymize (py_hash pf) (py_str m)))"
    and "lg ''@timestamp'' \<noteq> None \<or> lg ''timestamp'' \<noteq> None" and "lg ''message'' \<noteq> None"
  shows "\<exists>lg3. lg3 ''id'' = None \<and> parse_cloudwatch_log pf lg ad = finish_log pf lg3 ad"
proof -
  from add_timestamp_ok[OF assms(5)] obtain lg1 where a: "add_timestamp lg = Inr lg1"
    by blast
  from assms(6) obtain m where m0: "lg ''message'' = Some m"
    by auto
  from add_timestamp_keeps[OF a] m0 assms(1) have m: "lg1 ''message'' = Some m" and i1: "lg1 ''id'' = None"
    by simp_all
  let ?lg2 = "lg1(''message'' \<mapsto> PStr (anonymize (py_hash pf) (py_str m)))"
  have id2: "?lg2 ''id'' = None"
    using i1 by simp
  have "?lg2 ''message'' = Some (PStr (anonymize (py_hash pf) (py_str m)))"
    by simp
  from extract_keeps_id[of ?lg2 "PStr (anonymize (py_hash pf) (py_str m))", OF this] id2
  obtain lg3 where
    lg3: "extract_lambda_log_message ?lg2 = Inr lg3" "lg3 ''id'' = None"
    by auto
  from m0 assms(4) have v: "b \<longrightarrow> \<not> lifecycle_marker (anonymize (py_hash pf) (py_str m))"
    by simp
  show ?thesis
  proof (cases b)
    case True
    with v have "parse_cloudwatch_log pf lg ad = finish_log pf lg3 ad"
      by (simp add: parse_cloudwatch_log_steps[of lg lg1 m ad svc b pf, OF a m assms(2,3)] lg3)
    with lg3(2) show ?thesis by blast
  next
    case False
    then have "parse_cloudwatch_log pf lg ad = finish_log pf ?lg2 ad"
      by (simp add: parse_cloudwatch_log_steps[of lg lg1 m ad svc b pf, OF a m assms(2,3)])
    with id2 show ?thesis by blast
  qed
qed

text \<open>
  C9. A record without \<^verbatim>\<open>id\<close> that is not dropped as noise raises \<open>KeyError\<close>.
  When the record has a timestamp and a message, the steps before go through and the
  error is that of \<^verbatim>\<open>del log['id']\<close>. In a batch whose earlier entries raise no error,
  the handler ends with \<open>KeyError\<close> after the calls for the earlier records, and never
  calls \<^verbatim>\<open>flush\<close>.
\<close>

theorem missing_id_aborts:
  assumes "lg ''id'' = None" and "ad ''service'' = Some svc"
    and "py_in LAMBDA_LOG_GROUP svc = Inr b"
    and "b \<longrightarrow> (\<forall>m. lg ''message'' = Some m \<longrightarrow>
                  \<not> lifecycle_marker (anonymize (py_hash pf) (py_str m)))"
  shows "parse_cloudwatch_log pf lg ad = Inl KeyError
       \<and> ((lg ''@timestamp'' \<noteq> None \<or> lg ''timestamp'' \<noteq> None) \<and> lg ''message'' \<noteq> None \<longrightarrow>
            (\<exists>lg3. lg3 ''id'' = None \<and> delitem lg3 ''id'' = Inl KeyError
                  \<and> parse_cloudwatch_log pf lg ad = finish_log pf lg3 ad))
       \<and> (\<forall>event doc pre post kvs.
            extract_aws_logs_data pf event = Inr doc \<and> get_additional_logs_data pf doc = Inr ad
            \<and> bind (subscript doc ''logEvents'') py_iter = Inr (pre @ PDict kvs # post)
            \<and> map_of kvs = lg \<and> (\<forall>ev \<in> set pre. \<exists>r. outcome pf ad ev = Inr r) \<longrightarrow>
            lambda_handler pf event = (Some KeyError, map Add (emitted pf ad pre))
            \<and> Flush \<notin> set (map Add (emitted pf ad pre)))"
proof (intro conjI allI impI)
  show k: "parse_cloudwatch_log pf lg ad = Inl KeyError"
    using assms by (rule missing_id_KeyError)
  {
    assume "(lg ''@timestamp'' \<noteq> None \<or> lg ''timestamp'' \<noteq> None) \<and> lg ''message'' \<noteq> None"
    then have "\<exists>lg3. lg3 ''id'' = None \<and> parse_cloudwatch_log pf lg ad = finish_log pf lg3 ad"
      using reaches_id_removal[of lg ad svc b pf] assms by simp
    then show "\<exists>lg3. lg3 ''id'' = None \<and> delitem lg3 ''id'' = Inl KeyError
                  \<and> parse_cloudwatch_log pf lg ad = finish_log pf lg3 ad"
      by (auto simp: delitem_def)
  }
  fix event doc pre post kvs
  assume a: "extract_aws_logs_data pf event = Inr doc \<and> get_additional_logs_data pf doc = Inr ad
            \<and> bind (subscript doc ''logEvents'') py_iter = Inr (pre @ PDict kvs # post)
            \<and> map_of kvs = lg \<and> (\<forall>ev \<in> set pre. \<exists>r. outcome pf ad ev = Inr r)"
  then have "extract_aws_logs_data pf event = Inr doc" and "get_additional_logs_data pf doc = Inr ad"
    and "bind (subscript doc ''logEvents'') py_iter = Inr (pre @ PDict kvs # post)"
    by simp_all
  then have u: "lambda_handler pf event =
     (case send_logs pf ad (pre @ PDict kvs # post) [] of
        (Some e, calls) \<Rightarrow> (Some e, calls)
      | (None, calls) \<Rightarrow> (None, calls @ [Flush]))"
    by (rule lambda_handler_unfold)
  from a k have o: "outcome pf ad (PDict kvs) = Inl KeyError"
    by simp
  from a have p: "\<forall>ev \<in> set pre. \<exists>r. outcome pf ad ev = Inr r"
    by simp
  from send_logs_first_error[OF p o, of post "[]"] u
  show "lambda_handler pf event = (Some KeyError, map Add (emitted pf ad pre))"
    by simp
  show "Flush \<notin> set (map Add (emitted pf ad pre))"
    by auto
qed

text \<open>
  C3, amended. For a batch that decodes, when no entry of the event list raises an
  error (each is a dict and \<^verbatim>\<open>_parse_cloudwatch_log\<close> returns for it), the handler calls
  \<^verbatim>\<open>add\<close> once for each surviving record, in the order of the event list, then
  \<^verbatim>\<open>flush\<close> once, and ends normally. When an entry raises an error, the handler ends
  with an error and has not called \<^verbatim>\<open>flush\<close>.
\<close>

theorem sink_calls:
  assumes "extract_aws_logs_data pf event = Inr doc" and "get_additional_logs_data pf doc = Inr ad"
    and "bind (subscript doc ''logEvents'') py_iter = Inr evs"
  shows "((\<forall>ev \<in> set evs. \<exists>r. outcome pf ad ev = Inr r) \<longrightarrow>
            lambda_handler pf event = (None, map Add (emitted pf ad evs) @ [Flush]))
       \<and> ((\<exists>ev \<in> set evs. \<exists>e. outcome pf ad ev = Inl e) \<longrightarrow>
            (\<exists>e calls. lambda_handler pf event = (Some e, calls) \<and> Flush \<notin> set calls))"
proof (intro conjI impI)
  note u = lambda_handler_unfold[OF assms]
  {
    assume "\<forall>ev \<in> set evs. \<exists>r. outcome pf ad ev = Inr r"
    from send_logs_ok[OF this, of "[]"] u
    show "lambda_handler pf event = (None, map Add (emitted pf ad evs) @ [Flush])"
      by simp
  }
  assume "\<exists>ev \<in> set evs. \<exists>e. outcome pf ad ev = Inl e"
  from send_logs_some_error[OF this, of "[]"] obtain e calls where
    s: "send_logs pf ad evs [] = (Some e, calls)"
    by blast
  have "Flush \<notin> set calls"
    using send_logs_no_flush[OF _ s] by simp
  with s u show "\<exists>e calls. lambda_handler pf event = (Some e, calls) \<and> Flush \<notin> set calls"
    by simp
qed

lemma example_extract: "extract_aws_logs_data (platform_for env doc) example_event = Inr doc"
  by (simp add: extract_aws_logs_data_def platform_for_def example_event_def)

lemma example_meta:
  "get_additional_logs_data (platform_for Map.empty example_doc) example_doc = Inr example_metadata"
  by (simp add: get_additional_logs_data_def platform_for_def example_doc_def example_metadata_def)

lemma missing_id_meta:
  "get_additional_logs_data (platform_for Map.empty doc_missing_id) doc_missing_id
     = Inr example_metadata"
  by (simp add: get_additional_logs_data_def platform_for_def doc_missing_id_def
      example_metadata_def)

lemma ecs_meta:
  "get_additional_logs_data (platform_for Map.empty doc_second_missing_id) doc_second_missing_id
     = Inr ecs_metadata"
  by (simp add: get_additional_logs_data_def platform_for_def doc_second_missing_id_def
      ecs_metadata_def)

lemma example_events:
  "bind (subscript example_doc ''logEvents'') py_iter =
     Inr [PDict [(''id'', PStr ''1''), (''timestamp'', PInt 1704067200000),
                 (''message'', PStr ''START RequestId: req-123'')],
          PDict [(''id'', PStr ''2''), (''timestamp'', PInt 1704067200001),
                 (''message'', PStr ''hello'')]]"
  by (simp add: example_doc_def)

lemma missing_id_events:
  "bind (subscript doc_missing_id ''logEvents'') py_iter =
     Inr ([] @ PDict [(''timestamp'', PInt 1704067200000), (''message'', PStr ''hello'')] # [])"
  by (simp add: doc_missing_id_def)

lemma ecs_events:
  "bind (subscript doc_second_missing_id ''logEvents'') py_iter =
     Inr ([PDict [(''id'', PStr ''1''), (''timestamp'', PInt 1704067200000),
                  (''message'', PStr ''first'')]]
          @ PDict [(''timestamp'', PInt 1704067200001), (''message'', PStr ''second'')] # [])"
  by (simp add: doc_second_missing_id_def)

lemma example_service:
  "example_metadata ''service'' = Some (PStr ''/aws/lambda/my-function'')"
  by (simp add: example_metadata_def)

lemma ecs_service: "ecs_metadata ''service'' = Some (PStr ''/ecs/app'')"
  by (simp add: ecs_metadata_def)

lemma example_noise_outcome:
  "\<exists>lg'. outcome example_platform example_metadata
           (PDict [(''id'', PStr ''1''), (''timestamp'', PInt 1704067200000),
                   (''message'', PStr ''START RequestId: req-123'')]) = Inr (False, lg')"
  using noise_dropped_ok[of example_metadata "PStr ''/aws/lambda/my-function''"
      "map_of [(''id'', PStr ''1''), (''timestamp'', PInt 1704067200000),
               (''message'', PStr ''START RequestId: req-123'')]"
      "''START RequestId: req-123''" example_platform,
      OF example_service lambda_group _ is_marker_START]
  by simp

lemma example_hello_outcome:
  "\<exists>lg'. outcome example_platform example_metadata
           (PDict [(''id'', PStr ''2''), (''timestamp'', PInt 1704067200001),
                   (''message'', PStr ''hello'')]) = Inr (True, lg')
         \<and> lg' ''message'' = Some (PStr ''hello'')"
proof -
  let ?lg = "map_of [(''id'', PStr ''2''), (''timestamp'', PInt 1704067200001),
                     (''message'', PStr ''hello'')]"
  have "\<exists>lg1. add_timestamp ?lg = Inr lg1
           \<and> parse_cloudwatch_log example_platform ?lg example_metadata
               = Inr (True, ((lg1(''message'' \<mapsto> PStr (py_str (PStr ''hello''))))(''id'' := None))
                              ++ example_metadata)"
    using not_marker_hello example_json_off[of example_doc]
    by (intro plain_emitted[of ?lg "PStr ''hello''" example_metadata
          "PStr ''/aws/lambda/my-function''" True example_platform] example_service lambda_group)
       (simp_all add: TAB_def example_platform_def)
  then obtain lg1 where
    p: "parse_cloudwatch_log example_platform ?lg example_metadata
         = Inr (True, ((lg1(''message'' \<mapsto> PStr ''hello''))(''id'' := None)) ++ example_metadata)"
    by auto
  have q: "(((lg1(''message'' \<mapsto> PStr ''hello''))(''id'' := None)) ++ example_metadata) ''message''
             = Some (PStr ''hello'')"
    by (simp add: map_add_def example_metadata_def)
  from p have o: "outcome example_platform example_metadata
           (PDict [(''id'', PStr ''2''), (''timestamp'', PInt 1704067200001),
                   (''message'', PStr ''hello'')])
         = Inr (True, ((lg1(''message'' \<mapsto> PStr ''hello''))(''id'' := None)) ++ example_metadata)"
    by (simp only: outcome.simps)
  show ?thesis
    by (rule exI[of _ "((lg1(''message'' \<mapsto> PStr ''hello''))(''id'' := None)) ++ example_metadata"])
       (intro conjI, rule o, rule q)
qed

text \<open>
  The example of the specification: a lifecycle record and a record of the function's
  own give one \<^verbatim>\<open>add\<close> and one \<^verbatim>\<open>flush\<close>.
\<close>

theorem sink_calls_witness:
  "\<exists>lg. lambda_handler example_platform example_event = (None, [Add lg, Flush])
      \<and> lg ''message'' = Some (PStr ''hello'')"
proof -
  let ?e1 = "PDict [(''id'', PStr ''1''), (''timestamp'', PInt 1704067200000),
                    (''message'', PStr ''START RequestId: req-123'')]"
  let ?e2 = "PDict [(''id'', PStr ''2''), (''timestamp'', PInt 1704067200001),
                    (''message'', PStr ''hello'')]"
  from example_noise_outcome obtain lg1 where
    o1: "outcome example_platform example_metadata ?e1 = Inr (False, lg1)"
    by blast
  from example_hello_outcome obtain lg2 where
    o2: "outcome example_platform example_metadata ?e2 = Inr (True, lg2)"
    and m2: "lg2 ''message'' = Some (PStr ''hello'')"
    by blast
  have all: "\<forall>ev \<in> set [?e1, ?e2]. \<exists>r. outcome example_platform example_metadata ev = Inr r"
    using o1 o2 by (auto simp del: outcome.simps)
  have em: "emitted example_platform example_metadata [?e1, ?e2] = [lg2]"
    by (simp add: emitted_Cons o1 o2 emitted_def del: outcome.simps)
  from sink_calls[of example_platform example_event example_doc example_metadata "[?e1, ?e2]"]
    example_extract[of Map.empty example_doc] example_meta example_events all
  have "lambda_handler example_platform example_event
          = (None, map Add (emitted example_platform example_metadata [?e1, ?e2]) @ [Flush])"
    by (simp only: example_platform_def simp_thms)
  with em m2 show ?thesis
    by simp
qed

text \<open>
  C3, as the specification states it, fails: a batch whose only entry is a dict without
  \<^verbatim>\<open>id\<close> ends in \<open>KeyError\<close>, and \<^verbatim>\<open>flush\<close> is not called.
\<close>

theorem flush_skipped:
  "lambda_handler (platform_for Map.empty doc_missing_id) example_event = (Some KeyError, [])"
proof -
  let ?pf = "platform_for Map.empty doc_missing_id"
  let ?kvs = "[(''timestamp'', PInt 1704067200000), (''message'', PStr ''hello'')]"
  have an: "anonymize (py_hash ?pf) ''hello'' = ''hello''"
    by (rule anonymize_no_sep) simp_all
  have "parse_cloudwatch_log ?pf (map_of ?kvs) example_metadata = Inl KeyError"
    using not_marker_hello
    by (intro missing_id_KeyError[of "map_of ?kvs" example_metadata
          "PStr ''/aws/lambda/my-function''" True ?pf] example_service lambda_group)
       (simp_all add: an)
  then have o: "outcome ?pf example_metadata (PDict ?kvs) = Inl KeyError"
    by simp
  have "send_logs ?pf example_metadata ([] @ PDict ?kvs # []) [] = (Some KeyError, [])"
    using send_logs_first_error[of "[]" ?pf example_metadata "PDict ?kvs" KeyError "[]" "[]", OF _ o]
    by (simp add: emitted_def)
  then show ?thesis
    by (simp add: lambda_handler_unfold[OF example_extract missing_id_meta missing_id_events])
qed

lemma ecs_first_outcome:
  "\<exists>lg'. outcome (platform_for Map.empty doc_second_missing_id) ecs_metadata
           (PDict [(''id'', PStr ''1''), (''timestamp'', PInt 1704067200000),
                   (''message'', PStr ''first'')]) = Inr (True, lg')
         \<and> lg' ''message'' = Some (PStr ''first'')"
proof -
  let ?pf = "platform_for Map.empty doc_second_missing_id"
  let ?lg = "map_of [(''id'', PStr ''1''), (''timestamp'', PInt 1704067200000),
                     (''message'', PStr ''first'')]"
  have "\<exists>lg1. add_timestamp ?lg = Inr lg1
           \<and> parse_cloudwatch_log ?pf ?lg ecs_metadata
               = Inr (True, ((lg1(''message'' \<mapsto> PStr (py_str (PStr ''first''))))(''id'' := None))
                              ++ ecs_metadata)"
    using not_marker_first example_json_off[of doc_second_missing_id]
    by (intro plain_emitted[of ?lg "PStr ''first''" ecs_metadata "PStr ''/ecs/app''" False ?pf]
          ecs_service other_group)
       (simp_all add: TAB_def)
  then obtain lg1 where
    p: "parse_cloudwatch_log ?pf ?lg ecs_metadata
         = Inr (True, ((lg1(''message'' \<mapsto> PStr ''first''))(''id'' := None)) ++ ecs_metadata)"
    by auto
  have q: "(((lg1(''message'' \<mapsto> PStr ''first''))(''id'' := None)) ++ ecs_metadata) ''message''
             = Some (PStr ''first'')"
    by (simp add: map_add_def ecs_metadata_def)
  from p have o: "outcome ?pf ecs_metadata
           (PDict [(''id'', PStr ''1''), (''timestamp'', PInt 1704067200000),
                   (''message'', PStr ''first'')])
         = Inr (True, ((lg1(''message'' \<mapsto> PStr ''first''))(''id'' := None)) ++ ecs_metadata)"
    by (simp only: outcome.simps)
  show ?thesis
    by (rule exI[of _ "((lg1(''message'' \<mapsto> PStr ''first''))(''id'' := None)) ++ ecs_metadata"])
       (intro conjI, rule o, rule q)
qed

text \<open>
  A batch of two records, the second without \<^verbatim>\<open>id\<close>: one \<^verbatim>\<open>add\<close>, then
  \<open>KeyError\<close>, no \<^verbatim>\<open>flush\<close>.
\<close>

theorem missing_id_aborts_witness:
  "\<exists>lg. lambda_handler (platform_for Map.empty doc_second_missing_id) example_event
         = (Some KeyError, [Add lg])
      \<and> lg ''message'' = Some (PStr ''first'')"
proof -
  let ?pf = "platform_for Map.empty doc_second_missing_id"
  let ?e1 = "PDict [(''id'', PStr ''1''), (''timestamp'', PInt 1704067200000),
                    (''message'', PStr ''first'')]"
  let ?kvs = "[(''timestamp'', PInt 1704067200001), (''message'', PStr ''second'')]"
  from ecs_first_outcome obtain lg1 where
    o1: "outcome ?pf ecs_metadata ?e1 = Inr (True, lg1)"
    and m1: "lg1 ''message'' = Some (PStr ''first'')"
    by blast
  have pre: "\<forall>ev \<in> set [?e1]. \<exists>r. outcome ?pf ecs_metadata ev = Inr r"
    using o1 by (auto simp del: outcome.simps)
  have em: "emitted ?pf ecs_metadata [?e1] = [lg1]"
    by (simp add: emitted_Cons o1 emitted_def del: outcome.simps)
  have i: "map_of ?kvs ''id'' = None"
    by simp
  have v: "False \<longrightarrow> (\<forall>m. map_of ?kvs ''message'' = Some m \<longrightarrow>
                  \<not> lifecycle_marker (anonymize (py_hash ?pf) (py_str m)))"
    by simp
  from missing_id_aborts[of "map_of ?kvs" ecs_metadata "PStr ''/ecs/app''" False ?pf,
      OF i ecs_service other_group v]
  have "\<forall>event doc pre post kvs.
            extract_aws_logs_data ?pf event = Inr doc \<and> get_additional_logs_data ?pf doc = Inr ecs_metadata
            \<and> bind (subscript doc ''logEvents'') py_iter = Inr (pre @ PDict kvs # post)
            \<and> map_of kvs = map_of ?kvs \<and> (\<forall>ev \<in> set pre. \<exists>r. outcome ?pf ecs_metadata ev = Inr r) \<longrightarrow>
            lambda_handler ?pf event = (Some KeyError, map Add (emitted ?pf ecs_metadata pre))
            \<and> Flush \<notin> set (map Add (emitted ?pf ecs_metadata pre))"
    by (elim conjE)
  then have "lambda_handler ?pf example_event = (Some KeyError, map Add (emitted ?pf ecs_metadata [?e1]))"
    using example_extract[of Map.empty doc_second_missing_id] ecs_meta ecs_events pre
    by blast
  with em m1 show ?thesis
    by simp
qed

end
